theory Spec2Isabelle
  imports Complex_Main "HOL-Library.AList" "HOL-Library.Multiset" "HOL-Library.Log_Nat"
    "HOL-Library.Product_Lexorder"
begin

section \<open>The value-pick engine of \<^verbatim>\<open>src/main.py\<close>\<close>

text \<open>
  The development embeds \<^verbatim>\<open>naive_edge\<close> (lines 49-164) and the collecting, sorting and
  truncating part of \<^verbatim>\<open>tips\<close> (lines 210-225). Python numbers are modelled as exact
  rationals: every statement below is about exact arithmetic, and floating-point rounding is
  not part of the model. In particular the float literal \<^verbatim>\<open>0.05\<close> is the rational \<open>1/20\<close>.
\<close>

subsection \<open>Input data\<close>

text \<open>
  A game is the decoded JSON object of the odds service. Only the keys read by the code are
  kept: \<^verbatim>\<open>game['bookmakers']\<close> (possibly absent, read with \<^verbatim>\<open>.get\<close>),
  \<^verbatim>\<open>bookmaker['markets']\<close>, \<^verbatim>\<open>market['outcomes']\<close>, \<^verbatim>\<open>outcome['name']\<close> and
  \<^verbatim>\<open>outcome['price']\<close>. The fields have the types the code expects (a name is a string, a
  price is a number); a game with a field of another type or without one of these keys makes
  the code raise into its handler and is not represented.
\<close>

record outcome =
  name :: string
  price :: rat

record market =
  outcomes :: "outcome list"

record bookmaker =
  markets :: "market list"

record game =
  bookmakers :: "bookmaker list option"

subsection \<open>Exceptions and exits\<close>

text \<open>
  The body of \<^verbatim>\<open>naive_edge\<close> is wrapped in \<^verbatim>\<open>try ... except Exception: return None\<close>.
  The model keeps track of the place where the function leaves: \<open>InsufficientOutcomes\<close> is the
  \<^verbatim>\<open>return None\<close> of lines 52 and 60, \<open>NoUsableBookmaker\<close> that of line 98, \<open>NoConsensus\<close>
  that of line 116, \<open>ZeroConsensus\<close> that of line 133, \<open>NoQualifyingPick\<close> that of line 160,
  and \<open>Raised e\<close> is the \<^verbatim>\<open>return None\<close> of the exception handler (line 164).
\<close>

datatype exn = IndexError | ZeroDivisionError | KeyError

datatype exit =
    InsufficientOutcomes
  | NoUsableBookmaker
  | NoConsensus
  | ZeroConsensus
  | NoQualifyingPick
  | Raised exn

definition and_then :: "exit + 'a \<Rightarrow> ('a \<Rightarrow> exit + 'b) \<Rightarrow> exit + 'b" where
  "and_then m f = (case m of Inl e \<Rightarrow> Inl e | Inr x \<Rightarrow> f x)"

text \<open>A \<^verbatim>\<open>for\<close> loop whose body may leave the function (by \<^verbatim>\<open>return\<close> or by raising).\<close>

fun for_each :: "('a \<Rightarrow> 's \<Rightarrow> exit + 's) \<Rightarrow> 'a list \<Rightarrow> 's \<Rightarrow> exit + 's" where
  "for_each body [] s = Inr s"
| "for_each body (x # xs) s = and_then (body x s) (for_each body xs)"

text \<open>\<^verbatim>\<open>d[k]\<close> on a dictionary raises \<^verbatim>\<open>KeyError\<close> when the key is missing.\<close>

definition getitem :: "('k \<rightharpoonup> 'v) \<Rightarrow> 'k \<Rightarrow> exit + 'v" where
  "getitem d k = (case d k of None \<Rightarrow> Inl (Raised KeyError) | Some v \<Rightarrow> Inr v)"

subsection \<open>Lines 54-62: the outcome names\<close>

text \<open>\<^verbatim>\<open>bookmaker['markets'][0]\<close> raises \<^verbatim>\<open>IndexError\<close> on an empty list.\<close>

definition first_market :: "bookmaker \<Rightarrow> exit + market" where
  "first_market b = (case markets b of [] \<Rightarrow> Inl (Raised IndexError) | m # _ \<Rightarrow> Inr m)"

text \<open>
  The set \<^verbatim>\<open>outcome_names\<close> is represented by the sequence of the names added to it;
  \<^verbatim>\<open>len\<close> of the set is the number of distinct names.
\<close>

definition add_names :: "bookmaker \<Rightarrow> string list \<Rightarrow> exit + string list" where
  "add_names b seen =
     and_then (first_market b) (\<lambda>m. Inr (fold (\<lambda>oc s. s @ [name oc]) (outcomes m) seen))"

text \<open>
  \<^verbatim>\<open>list(outcome_names)\<close> enumerates a Python set in an order the language does not fix. The
  model takes the enumeration as a parameter \<open>list_of\<close>, from the sequence of insertions to the
  resulting list; \<open>list_of_set\<close> says that it is an enumeration of the set without repetition.
\<close>

definition list_of_set :: "(string list \<Rightarrow> string list) \<Rightarrow> bool" where
  "list_of_set list_of \<longleftrightarrow> (\<forall>xs. distinct (list_of xs) \<and> set (list_of xs) = set xs)"

subsection \<open>Lines 64-98: implied probabilities, vig removal, best odds\<close>

type_synonym prices = "string \<rightharpoonup> rat"

record bm_data =
  vig_free :: prices
  outcomes_dict :: prices

text \<open>Lines 68-70. A name quoted twice keeps the later price.\<close>

definition make_outcomes_dict :: "outcome list \<Rightarrow> prices" where
  "make_outcomes_dict ocs = fold (\<lambda>oc d. d(name oc \<mapsto> price oc)) ocs Map.empty"

text \<open>
  Lines 72-77. \<^verbatim>\<open>implied_probs\<close> is a dictionary whose values are summed afterwards, so it is
  an association list in insertion order. \<^verbatim>\<open>1 / 0\<close> raises \<^verbatim>\<open>ZeroDivisionError\<close>.
\<close>

definition implied_step :: "prices \<Rightarrow> string \<Rightarrow> (string \<times> rat) list \<Rightarrow> exit + (string \<times> rat) list" where
  "implied_step od nm implied_probs =
     (case od nm of
        Some p \<Rightarrow> if p = 0 then Inl (Raised ZeroDivisionError)
                  else Inr (AList.update nm (1 / p) implied_probs)
      | None \<Rightarrow> Inr (AList.update nm 0 implied_probs))"

text \<open>Lines 84-90: one round of the loop that fills \<^verbatim>\<open>vig_free\<close> and raises the best odds.\<close>

fun vig_step :: "prices \<Rightarrow> (string \<times> rat) list \<Rightarrow> rat \<Rightarrow> string \<Rightarrow> prices \<times> prices \<Rightarrow> exit + prices \<times> prices" where
  "vig_step od implied_probs total_implied nm (vf, best_odds_per_outcome) =
     and_then (getitem (map_of implied_probs) nm) (\<lambda>q.
       Inr (vf(nm \<mapsto> q / total_implied),
            (case od nm of
               None \<Rightarrow> best_odds_per_outcome
             | Some p \<Rightarrow>
                 (case best_odds_per_outcome nm of
                    None \<Rightarrow> best_odds_per_outcome(nm \<mapsto> p)
                  | Some b \<Rightarrow> if p > b then best_odds_per_outcome(nm \<mapsto> p)
                              else best_odds_per_outcome))))"

text \<open>Lines 67-95: one bookmaker. A bookmaker whose implied probabilities sum to 0 is skipped.\<close>

fun bookmaker_step :: "string list \<Rightarrow> bookmaker \<Rightarrow> prices \<times> bm_data list \<Rightarrow> exit + prices \<times> bm_data list" where
  "bookmaker_step outcome_names b (best_odds_per_outcome, bookmaker_data) =
     and_then (first_market b) (\<lambda>m.
       let od = make_outcomes_dict (outcomes m) in
       and_then (for_each (implied_step od) outcome_names []) (\<lambda>implied_probs.
         let total_implied = sum_list (map snd implied_probs) in
         if total_implied = 0 then Inr (best_odds_per_outcome, bookmaker_data)
         else
           and_then (for_each (vig_step od implied_probs total_implied) outcome_names
                       (Map.empty, best_odds_per_outcome)) (\<lambda>(vf, best').
             Inr (best', bookmaker_data @ [\<lparr>vig_free = vf, outcomes_dict = od\<rparr>]))))"

subsection \<open>Lines 100-129: consensus per outcome\<close>

text \<open>
  Lines 104-111: one bookmaker in the collection of \<^verbatim>\<open>probs_for_consensus\<close>.
  \<^verbatim>\<open>best_odds_per_outcome.get(name)\<close> is \<^verbatim>\<open>None\<close> for a missing key, which equals no price.
\<close>

definition candidate_step :: "prices \<Rightarrow> string \<Rightarrow> bm_data \<Rightarrow> rat list \<Rightarrow> exit + rat list" where
  "candidate_step best_odds_per_outcome nm bd probs_for_consensus =
     (if (case outcomes_dict bd nm of
            Some p \<Rightarrow> best_odds_per_outcome nm = Some p
          | None \<Rightarrow> False)
      then Inr probs_for_consensus
      else and_then (getitem (vig_free bd) nm) (\<lambda>v.
             if v > 0 then Inr (probs_for_consensus @ [v]) else Inr probs_for_consensus))"

text \<open>Line 114: the list comprehension of the fallback.\<close>

definition all_step :: "string \<Rightarrow> bm_data \<Rightarrow> rat list \<Rightarrow> exit + rat list" where
  "all_step nm bd vig_free_probs_all =
     and_then (getitem (vig_free bd) nm) (\<lambda>v.
       if v > 0 then Inr (vig_free_probs_all @ [v]) else Inr vig_free_probs_all)"

text \<open>Lines 102-117: the candidates of one outcome, with the fallback.\<close>

definition probs_for :: "prices \<Rightarrow> bm_data list \<Rightarrow> string \<Rightarrow> exit + rat list" where
  "probs_for best_odds_per_outcome bookmaker_data nm =
     and_then (for_each (candidate_step best_odds_per_outcome nm) bookmaker_data []) (\<lambda>probs_for_consensus.
       if length probs_for_consensus = 0 then
         and_then (for_each (all_step nm) bookmaker_data []) (\<lambda>vig_free_probs_all.
           if length vig_free_probs_all = 0 then Inl NoConsensus else Inr vig_free_probs_all)
       else Inr probs_for_consensus)"

text \<open>
  Lines 119-129. On an empty list the \<^verbatim>\<open>elif\<close> branch would read \<^verbatim>\<open>sorted_probs[-1]\<close> and
  raise \<^verbatim>\<open>IndexError\<close>.
\<close>

definition median :: "rat list \<Rightarrow> exit + rat" where
  "median probs =
     (let sorted_probs = sort probs; n = length sorted_probs in
      if n = 0 then Inl (Raised IndexError)
      else if n = 1 then Inr (sorted_probs ! 0)
      else if n mod 2 = 0 then Inr ((sorted_probs ! (n div 2 - 1) + sorted_probs ! (n div 2)) / 2)
      else Inr (sorted_probs ! (n div 2)))"

text \<open>Lines 101-129: one outcome. \<^verbatim>\<open>consensus_probs\<close> is summed afterwards, so it is an association list.\<close>

definition consensus_step :: "prices \<Rightarrow> bm_data list \<Rightarrow> string \<Rightarrow> (string \<times> rat) list \<Rightarrow> exit + (string \<times> rat) list" where
  "consensus_step best_odds_per_outcome bookmaker_data nm consensus_probs =
     and_then (probs_for best_odds_per_outcome bookmaker_data nm) (\<lambda>probs.
       and_then (median probs) (\<lambda>median_prob.
         Inr (AList.update nm median_prob consensus_probs)))"

subsection \<open>Lines 131-137: fair probabilities\<close>

definition fair_step :: "(string \<times> rat) list \<Rightarrow> rat \<Rightarrow> string \<Rightarrow> prices \<Rightarrow> exit + prices" where
  "fair_step consensus_probs total_consensus nm fair_probs =
     and_then (getitem (map_of consensus_probs) nm) (\<lambda>c.
       Inr (fair_probs(nm \<mapsto> c / total_consensus)))"

text \<open>Lines 64-137 for a given list of outcome names: the fair probabilities and the best odds.\<close>

definition estimate :: "string list \<Rightarrow> bookmaker list \<Rightarrow> exit + prices \<times> prices" where
  "estimate outcome_names bms =
     and_then (for_each (bookmaker_step outcome_names) bms (Map.empty, [])) (\<lambda>(best_odds_per_outcome, bookmaker_data).
       if length bookmaker_data = 0 then Inl NoUsableBookmaker
       else
         and_then (for_each (consensus_step best_odds_per_outcome bookmaker_data) outcome_names []) (\<lambda>consensus_probs.
           let total_consensus = sum_list (map snd consensus_probs) in
           if total_consensus = 0 then Inl ZeroConsensus
           else
             and_then (for_each (fair_step consensus_probs total_consensus) outcome_names Map.empty) (\<lambda>fair_probs.
               Inr (fair_probs, best_odds_per_outcome))))"

text \<open>Lines 51-137: the estimation, from the game to the names, fair probabilities and best odds.\<close>

definition estimation :: "(string list \<Rightarrow> string list) \<Rightarrow> game \<Rightarrow> exit + string list \<times> prices \<times> prices" where
  "estimation list_of g =
     (case bookmakers g of
        None \<Rightarrow> Inl InsufficientOutcomes
      | Some bms \<Rightarrow>
          if length bms = 0 then Inl InsufficientOutcomes
          else
            and_then (for_each add_names bms []) (\<lambda>seen.
              if card (set seen) < 2 then Inl InsufficientOutcomes
              else
                let outcome_names = list_of seen in
                and_then (estimate outcome_names bms) (\<lambda>(fair_probs, best_odds_per_outcome).
                  Inr (outcome_names, fair_probs, best_odds_per_outcome))))"

subsection \<open>Lines 139-160: selection\<close>

definition expected_roi :: "rat \<Rightarrow> rat \<Rightarrow> rat" where
  "expected_roi fair_prob best_price = (fair_prob * best_price) - 1"

fun select_step :: "prices \<Rightarrow> prices \<Rightarrow> string \<Rightarrow> string option \<times> rat \<times> rat \<Rightarrow> exit + string option \<times> rat \<times> rat" where
  "select_step fair_probs best_odds_per_outcome nm (best_pick, best_roi, best_odds) =
     (case best_odds_per_outcome nm of
        None \<Rightarrow> Inr (best_pick, best_roi, best_odds)
      | Some best_price \<Rightarrow>
          and_then (getitem fair_probs nm) (\<lambda>fair_prob.
            if expected_roi fair_prob best_price > best_roi
            then Inr (Some nm, expected_roi fair_prob best_price, best_price)
            else Inr (best_pick, best_roi, best_odds)))"

text \<open>Lines 139-155: the loop, from \<^verbatim>\<open>best_pick = None\<close>, \<^verbatim>\<open>best_roi = -1\<close>, \<^verbatim>\<open>best_odds = 0\<close>.\<close>

definition select_loop :: "string list \<Rightarrow> prices \<Rightarrow> prices \<Rightarrow> exit + string option \<times> rat \<times> rat" where
  "select_loop outcome_names fair_probs best_odds_per_outcome =
     for_each (select_step fair_probs best_odds_per_outcome) outcome_names (None, - 1, 0)"

text \<open>Lines 157-160: the threshold. The result is the tuple \<^verbatim>\<open>(best_pick, best_odds, best_roi)\<close>.\<close>

definition threshold :: "string option \<times> rat \<times> rat \<Rightarrow> exit + string option \<times> rat \<times> rat" where
  "threshold st = (case st of (best_pick, best_roi, best_odds) \<Rightarrow>
     if best_roi \<ge> 1 / 20 then Inr (best_pick, best_odds, best_roi) else Inl NoQualifyingPick)"

subsection \<open>\<^verbatim>\<open>naive_edge\<close>\<close>

definition naive_edge_trace :: "(string list \<Rightarrow> string list) \<Rightarrow> game \<Rightarrow> exit + string option \<times> rat \<times> rat" where
  "naive_edge_trace list_of g =
     and_then (estimation list_of g) (\<lambda>(outcome_names, fair_probs, best_odds_per_outcome).
       and_then (select_loop outcome_names fair_probs best_odds_per_outcome) threshold)"

text \<open>What the caller sees: \<^verbatim>\<open>None\<close> on every exit but the last \<^verbatim>\<open>return\<close>.\<close>

definition naive_edge :: "(string list \<Rightarrow> string list) \<Rightarrow> game \<Rightarrow> (string option \<times> rat \<times> rat) option" where
  "naive_edge list_of g = (case naive_edge_trace list_of g of Inl _ \<Rightarrow> None | Inr r \<Rightarrow> Some r)"

subsection \<open>Lines 210-225 of \<^verbatim>\<open>tips\<close>: the picks of one sport\<close>

definition MAX_PICKS_PER_SPORT :: nat where
  "MAX_PICKS_PER_SPORT = 5"

text \<open>Lines 213-218. A returned tuple is truthy; \<^verbatim>\<open>None\<close> is not.\<close>

definition collect_step :: "(string list \<Rightarrow> string list) \<Rightarrow> game \<Rightarrow> (rat \<times> game \<times> string option \<times> rat) list \<Rightarrow> (rat \<times> game \<times> string option \<times> rat) list" where
  "collect_step list_of g value_picks =
     (case naive_edge list_of g of
        None \<Rightarrow> value_picks
      | Some (pick, odds, edge) \<Rightarrow> value_picks @ [(edge, g, pick, odds)])"

definition value_picks :: "(string list \<Rightarrow> string list) \<Rightarrow> game list \<Rightarrow> (rat \<times> game \<times> string option \<times> rat) list" where
  "value_picks list_of games = fold (collect_step list_of) games []"


subsection \<open>Example matches\<close>

text \<open>
  Scenario A of the specification: \<^verbatim>\<open>BookmakerX\<close> quotes A at 2.00 and B at 1.80,
  \<^verbatim>\<open>BookmakerY\<close> quotes A at 1.90 and B at 2.00.
\<close>

definition scenario_A :: game where
  "scenario_A = \<lparr>bookmakers = Some
     [\<lparr>markets = [\<lparr>outcomes = [\<lparr>name = ''A'', price = 2\<rparr>, \<lparr>name = ''B'', price = 18/10\<rparr>]\<rparr>]\<rparr>,
      \<lparr>markets = [\<lparr>outcomes = [\<lparr>name = ''A'', price = 19/10\<rparr>, \<lparr>name = ''B'', price = 2\<rparr>]\<rparr>]\<rparr>]\<rparr>"

text \<open>
  Scenario B of the specification: \<^verbatim>\<open>BookmakerX\<close> quotes A at 3.00 and B at 1.40,
  \<^verbatim>\<open>BookmakerY\<close> quotes A at 1.50 and B at 2.60.
\<close>

definition scenario_B :: game where
  "scenario_B = \<lparr>bookmakers = Some
     [\<lparr>markets = [\<lparr>outcomes = [\<lparr>name = ''A'', price = 3\<rparr>, \<lparr>name = ''B'', price = 14/10\<rparr>]\<rparr>]\<rparr>,
      \<lparr>markets = [\<lparr>outcomes = [\<lparr>name = ''A'', price = 15/10\<rparr>, \<lparr>name = ''B'', price = 26/10\<rparr>]\<rparr>]\<rparr>]\<rparr>"


text \<open>The degenerate match of the specification: one bookmaker quoting a single outcome.\<close>

definition degenerate :: game where
  "degenerate = \<lparr>bookmakers = Some [\<lparr>markets = [\<lparr>outcomes = [\<lparr>name = ''A'', price = 2\<rparr>]\<rparr>]\<rparr>]\<rparr>"

text \<open>
  A match in which a bookmaker omits an outcome: X quotes A at 2.00 and B at 2.00, Y quotes A at
  2.10 and B at 1.90, Z quotes B at 1.50 and C at 3.00.
\<close>

definition omitting :: game where
  "omitting = \<lparr>bookmakers = Some
     [\<lparr>markets = [\<lparr>outcomes = [\<lparr>name = ''A'', price = 2\<rparr>, \<lparr>name = ''B'', price = 2\<rparr>]\<rparr>]\<rparr>,
      \<lparr>markets = [\<lparr>outcomes = [\<lparr>name = ''A'', price = 21/10\<rparr>, \<lparr>name = ''B'', price = 19/10\<rparr>]\<rparr>]\<rparr>,
      \<lparr>markets = [\<lparr>outcomes = [\<lparr>name = ''B'', price = 15/10\<rparr>, \<lparr>name = ''C'', price = 3\<rparr>]\<rparr>]\<rparr>]\<rparr>"

subsection \<open>Vocabulary of the statements\<close>

text \<open>
  The quote set of a bookmaker is what the code reads from it, the outcomes of its first
  market; a bookmaker without a market has none (and makes the code raise).
\<close>

definition quotes :: "bookmaker \<Rightarrow> outcome list" where
  "quotes b = (case markets b of [] \<Rightarrow> [] | m # _ \<Rightarrow> outcomes m)"

definition outcome_universe :: "bookmaker list \<Rightarrow> string set" where
  "outcome_universe bms = (\<Union>b\<in>set bms. name ` set (quotes b))"

definition positive_prices :: "bookmaker list \<Rightarrow> bool" where
  "positive_prices bms \<longleftrightarrow> (\<forall>b\<in>set bms. \<forall>oc\<in>set (quotes b). 0 < price oc)"

text \<open>
  The implied probability of an outcome in a quote set (\<open>1/price\<close> when quoted, 0 when
  omitted), the sum of the implied probabilities over the outcome names, and the de-vigged
  probability. A bookmaker is usable when its implied probabilities do not sum to 0.
\<close>

definition implied :: "prices \<Rightarrow> string \<Rightarrow> rat" where
  "implied od nm = (case od nm of Some p \<Rightarrow> 1 / p | None \<Rightarrow> 0)"

definition total_implied_of :: "string list \<Rightarrow> prices \<Rightarrow> rat" where
  "total_implied_of names od = (\<Sum>n\<leftarrow>names. implied od n)"

definition devigged :: "string list \<Rightarrow> prices \<Rightarrow> string \<Rightarrow> rat" where
  "devigged names od nm = implied od nm / total_implied_of names od"

definition usable :: "string list \<Rightarrow> bookmaker \<Rightarrow> bool" where
  "usable names b \<longleftrightarrow> total_implied_of names (make_outcomes_dict (quotes b)) \<noteq> 0"

text \<open>
  What a usable bookmaker appends to \<^verbatim>\<open>bookmaker_data\<close>, and what it does to
  \<^verbatim>\<open>best_odds_per_outcome\<close>: each of its prices replaces a missing or smaller entry.
\<close>

definition usable_data :: "string list \<Rightarrow> bookmaker \<Rightarrow> bm_data" where
  "usable_data names b =
     \<lparr>vig_free = (\<lambda>n. if n \<in> set names then Some (devigged names (make_outcomes_dict (quotes b)) n) else None),
      outcomes_dict = make_outcomes_dict (quotes b)\<rparr>"

definition raise_best :: "string list \<Rightarrow> prices \<Rightarrow> prices \<Rightarrow> prices" where
  "raise_best names od best =
     (\<lambda>n. if n \<in> set names then
            (case od n of None \<Rightarrow> best n
             | Some p \<Rightarrow> (case best n of None \<Rightarrow> Some p | Some b \<Rightarrow> Some (max b p)))
          else best n)"

definition best_after :: "string list \<Rightarrow> bookmaker list \<Rightarrow> prices \<Rightarrow> prices" where
  "best_after names bms best =
     fold (\<lambda>b best. if usable names b then raise_best names (make_outcomes_dict (quotes b)) best else best)
       bms best"

text \<open>
  The consensus of an outcome. A bookmaker is excluded from the candidates of an outcome when
  it quotes the outcome at the best price. The candidates are the strictly positive de-vigged
  probabilities of the bookmakers that are not excluded; when there is none, those of all
  bookmakers. The consensus is the median of the chosen list.
\<close>

definition excluded :: "prices \<Rightarrow> string \<Rightarrow> bm_data \<Rightarrow> bool" where
  "excluded best nm bd \<longleftrightarrow> (case outcomes_dict bd nm of Some p \<Rightarrow> best nm = Some p | None \<Rightarrow> False)"

definition dv :: "bm_data \<Rightarrow> string \<Rightarrow> rat" where
  "dv bd nm = (case vig_free bd nm of Some v \<Rightarrow> v | None \<Rightarrow> 0)"

definition positive_candidates :: "prices \<Rightarrow> bm_data list \<Rightarrow> string \<Rightarrow> rat list" where
  "positive_candidates best data nm =
     map (\<lambda>bd. dv bd nm) (filter (\<lambda>bd. \<not> excluded best nm bd \<and> 0 < dv bd nm) data)"

definition positive_all :: "bm_data list \<Rightarrow> string \<Rightarrow> rat list" where
  "positive_all data nm = map (\<lambda>bd. dv bd nm) (filter (\<lambda>bd. 0 < dv bd nm) data)"

definition chosen_probs :: "prices \<Rightarrow> bm_data list \<Rightarrow> string \<Rightarrow> rat list" where
  "chosen_probs best data nm =
     (if positive_candidates best data nm \<noteq> [] then positive_candidates best data nm
      else positive_all data nm)"

definition median_of :: "rat list \<Rightarrow> rat" where
  "median_of ps =
     (let s = sort ps; n = length s in
      if n mod 2 = 0 then (s ! (n div 2 - 1) + s ! (n div 2)) / 2 else s ! (n div 2))"

definition consensus_of :: "prices \<Rightarrow> bm_data list \<Rightarrow> string \<Rightarrow> rat" where
  "consensus_of best data nm = median_of (chosen_probs best data nm)"

text \<open>The usable bookmakers' data, and the fair probabilities: the consensus values over their sum.\<close>

definition usable_bookmakers :: "string list \<Rightarrow> bookmaker list \<Rightarrow> bm_data list" where
  "usable_bookmakers names bms = map (usable_data names) (filter (usable names) bms)"

definition fair_of :: "string list \<Rightarrow> prices \<Rightarrow> bm_data list \<Rightarrow> prices" where
  "fair_of names best data =
     (\<lambda>n. if n \<in> set names
          then Some (consensus_of best data n / (\<Sum>m\<leftarrow>names. consensus_of best data m))
          else None)"

text \<open>No bookmaker makes the code raise: each has a market, and no price read is 0.\<close>

definition readable :: "string list \<Rightarrow> bookmaker list \<Rightarrow> bool" where
  "readable names bms \<longleftrightarrow>
     (\<forall>b\<in>set bms. markets b \<noteq> [] \<and> (\<forall>n\<in>set names. make_outcomes_dict (quotes b) n \<noteq> Some 0))"

text \<open>
  The candidate list as the specification words it: the de-vigged probabilities of every usable
  bookmaker that is not excluded, with no test of their sign; the fallback takes the nonzero
  de-vigged probabilities of all usable bookmakers.
\<close>

definition claimed_candidates :: "prices \<Rightarrow> bm_data list \<Rightarrow> string \<Rightarrow> rat list" where
  "claimed_candidates best data nm =
     map (\<lambda>bd. dv bd nm) (filter (\<lambda>bd. \<not> excluded best nm bd) data)"

definition claimed_fallback :: "bm_data list \<Rightarrow> string \<Rightarrow> rat list" where
  "claimed_fallback data nm = map (\<lambda>bd. dv bd nm) (filter (\<lambda>bd. dv bd nm \<noteq> 0) data)"

definition claimed_probs_for :: "prices \<Rightarrow> bm_data list \<Rightarrow> string \<Rightarrow> exit + rat list" where
  "claimed_probs_for best data nm =
     (if claimed_candidates best data nm \<noteq> [] then Inr (claimed_candidates best data nm)
      else if claimed_fallback data nm \<noteq> [] then Inr (claimed_fallback data nm)
      else Inl NoConsensus)"

text \<open>
  The state of \<^verbatim>\<open>naive_edge\<close> on the match \<open>omitting\<close> after the loop of lines 67-95, for the
  names in the order A, B, C.
\<close>

definition omitting_phase1 :: "exit + prices \<times> bm_data list" where
  "omitting_phase1 =
     for_each (bookmaker_step [''A'', ''B'', ''C'']) (the (bookmakers omitting)) (Map.empty, [])"

section \<open>The same code in floating point\<close>

text \<open>
  The embedding above computes with exact rationals. It decides which candidates are collected
  and which exit is taken, but not what the comparisons of lines 152 and 157 and the sort of
  line 224 see: these act on rounded values. The definitions of this section repeat the code
  with Python's floats, so that ties and the threshold are those of the running program.
\<close>

subsection \<open>Python floats\<close>

text \<open>
  A float is an IEEE 754 binary64 value: a finite rational, an infinity or NaN. The sign of
  zero is not kept: the code never observes it (a division by either zero raises, and both
  zeros compare equal). \<open>rnd\<close> rounds a rational to the nearest float, ties to even, with
  gradual underflow below \<open>2^-1022\<close> and overflow to infinity from \<open>2^1024 - 2^970\<close> on.
\<close>

datatype pyfloat = Fin rat | PInf | NInf | NaN

definition pow2 :: "int \<Rightarrow> rat" where
  "pow2 k = (if 0 \<le> k then 2 ^ nat k else 1 / 2 ^ nat (- k))"

text \<open>The exponent of a positive rational: \<open>pow2 (expo a) \<le> a < pow2 (expo a + 1)\<close>.\<close>

definition expo :: "rat \<Rightarrow> int" where
  "expo a = (case quotient_of a of (n, d) \<Rightarrow>
     let k = bitlen n - bitlen d in if pow2 k \<le> a then k else k - 1)"

definition round_half_even :: "rat \<Rightarrow> int" where
  "round_half_even y =
     (let f = \<lfloor>y\<rfloor>; r = y - of_int f in
      if r < 1 / 2 then f else if 1 / 2 < r then f + 1 else if even f then f else f + 1)"

definition rnd :: "rat \<Rightarrow> pyfloat" where
  "rnd x =
     (if x = 0 then Fin 0
      else
        let a = \<bar>x\<bar>;
            q = pow2 (max (expo a) (- 1022) - 52);
            r = of_int (round_half_even (a / q)) * q
        in if pow2 1024 \<le> r then (if 0 < x then PInf else NInf)
           else Fin (if 0 < x then r else - r))"

fun fneg :: "pyfloat \<Rightarrow> pyfloat" where
  "fneg (Fin x) = Fin (- x)"
| "fneg PInf = NInf"
| "fneg NInf = PInf"
| "fneg NaN = NaN"

fun fadd :: "pyfloat \<Rightarrow> pyfloat \<Rightarrow> pyfloat" where
  "fadd NaN _ = NaN"
| "fadd _ NaN = NaN"
| "fadd PInf NInf = NaN"
| "fadd NInf PInf = NaN"
| "fadd PInf _ = PInf"
| "fadd _ PInf = PInf"
| "fadd NInf _ = NInf"
| "fadd _ NInf = NInf"
| "fadd (Fin x) (Fin y) = rnd (x + y)"

definition fsub :: "pyfloat \<Rightarrow> pyfloat \<Rightarrow> pyfloat" where
  "fsub a b = fadd a (fneg b)"

text \<open>The sign of a float that is not NaN: -1, 0 or 1.\<close>

fun fsgn :: "pyfloat \<Rightarrow> int" where
  "fsgn (Fin x) = (if x < 0 then - 1 else if x = 0 then 0 else 1)"
| "fsgn PInf = 1"
| "fsgn NInf = - 1"
| "fsgn NaN = 0"

definition inf_of :: "int \<Rightarrow> pyfloat" where
  "inf_of s = (if s < 0 then NInf else PInf)"

fun fmul :: "pyfloat \<Rightarrow> pyfloat \<Rightarrow> pyfloat" where
  "fmul NaN _ = NaN"
| "fmul _ NaN = NaN"
| "fmul (Fin x) (Fin y) = rnd (x * y)"
| "fmul a b = (if fsgn a = 0 \<or> fsgn b = 0 then NaN else inf_of (fsgn a * fsgn b))"

text \<open>Division by a divisor that is not zero; \<open>py_div\<close> below raises on zero.\<close>

fun fdiv :: "pyfloat \<Rightarrow> pyfloat \<Rightarrow> pyfloat" where
  "fdiv NaN _ = NaN"
| "fdiv _ NaN = NaN"
| "fdiv (Fin x) (Fin y) = rnd (x / y)"
| "fdiv (Fin x) _ = Fin 0"
| "fdiv a (Fin y) = inf_of (fsgn a * fsgn (Fin y))"
| "fdiv _ _ = NaN"

text \<open>Comparisons: every comparison with NaN is false.\<close>

fun flt :: "pyfloat \<Rightarrow> pyfloat \<Rightarrow> bool" where
  "flt NaN _ = False"
| "flt _ NaN = False"
| "flt (Fin x) (Fin y) = (x < y)"
| "flt PInf _ = False"
| "flt _ PInf = True"
| "flt _ NInf = False"
| "flt NInf _ = True"

fun feq :: "pyfloat \<Rightarrow> pyfloat \<Rightarrow> bool" where
  "feq NaN _ = False"
| "feq _ NaN = False"
| "feq a b = (a = b)"

definition fle :: "pyfloat \<Rightarrow> pyfloat \<Rightarrow> bool" where
  "fle a b \<longleftrightarrow> flt a b \<or> feq a b"

text \<open>\<^verbatim>\<open>a / b\<close> raises \<^verbatim>\<open>ZeroDivisionError\<close> when \<^verbatim>\<open>b == 0\<close>.\<close>

definition py_div :: "pyfloat \<Rightarrow> pyfloat \<Rightarrow> exit + pyfloat" where
  "py_div a b = (if feq b (Fin 0) then Inl (Raised ZeroDivisionError) else Inr (fdiv a b))"

text \<open>
  The place of a float in the order of \<^verbatim>\<open><\<close>, for sorting lists without NaN (Python's sort
  compares with \<^verbatim>\<open><\<close> only).
\<close>

fun fkey :: "pyfloat \<Rightarrow> int \<times> rat" where
  "fkey (Fin x) = (0, x)"
| "fkey PInf = (1, 0)"
| "fkey NInf = (- 1, 0)"
| "fkey NaN = (2, 0)"

text \<open>The float literal \<^verbatim>\<open>0.05\<close>: the float nearest to \<open>1/20\<close>.\<close>

definition min_edge :: pyfloat where
  "min_edge = Fin (3602879701896397 / 72057594037927936)"

subsection \<open>The interpreter\<close>

text \<open>
  Two things the language leaves to the interpreter are parameters: the order in which
  \<^verbatim>\<open>list(outcome_names)\<close> enumerates the set (given the sequence of insertions), and the value
  of the built-in \<^verbatim>\<open>sum\<close> on floats, which CPython computes by adding from left to right up
  to version 3.11 and with a compensated summation from 3.12 on. \<open>left_sum\<close> is the former; on
  lists of at most two floats the two agree.
\<close>

record python =
  set_order :: "string list \<Rightarrow> string list"
  float_sum :: "pyfloat list \<Rightarrow> pyfloat"

definition left_sum :: "pyfloat list \<Rightarrow> pyfloat" where
  "left_sum xs = foldl fadd (Fin 0) xs"

subsection \<open>Input data with float prices\<close>

text \<open>
  A JSON number is read as the nearest float; an integer price is the float of the same value.
\<close>

record outcome_f =
  name_f :: string
  price_f :: pyfloat

record market_f =
  outcomes_f :: "outcome_f list"

record bookmaker_f =
  markets_f :: "market_f list"

record game_f =
  bookmakers_f :: "bookmaker_f list option"

type_synonym fprices = "string \<rightharpoonup> pyfloat"

record bm_data_f =
  vig_free_f :: fprices
  outcomes_dict_f :: fprices

subsection \<open>Lines 51-137 in floating point\<close>

definition first_market_f :: "bookmaker_f \<Rightarrow> exit + market_f" where
  "first_market_f b = (case markets_f b of [] \<Rightarrow> Inl (Raised IndexError) | m # _ \<Rightarrow> Inr m)"

definition add_names_f :: "bookmaker_f \<Rightarrow> string list \<Rightarrow> exit + string list" where
  "add_names_f b seen =
     and_then (first_market_f b) (\<lambda>m. Inr (fold (\<lambda>oc s. s @ [name_f oc]) (outcomes_f m) seen))"

definition make_outcomes_dict_f :: "outcome_f list \<Rightarrow> fprices" where
  "make_outcomes_dict_f ocs = fold (\<lambda>oc d. d(name_f oc \<mapsto> price_f oc)) ocs Map.empty"

text \<open>Lines 72-77. The \<^verbatim>\<open>0\<close> of an omitted outcome is an integer; it adds and divides as \<open>0.0\<close>.\<close>

definition implied_step_f :: "fprices \<Rightarrow> string \<Rightarrow> (string \<times> pyfloat) list \<Rightarrow> exit + (string \<times> pyfloat) list" where
  "implied_step_f od nm implied_probs =
     (case od nm of
        Some p \<Rightarrow> and_then (py_div (Fin 1) p) (\<lambda>q. Inr (AList.update nm q implied_probs))
      | None \<Rightarrow> Inr (AList.update nm (Fin 0) implied_probs))"

fun vig_step_f :: "fprices \<Rightarrow> (string \<times> pyfloat) list \<Rightarrow> pyfloat \<Rightarrow> string \<Rightarrow> fprices \<times> fprices \<Rightarrow> exit + fprices \<times> fprices" where
  "vig_step_f od implied_probs total_implied nm (vf, best_odds_per_outcome) =
     and_then (getitem (map_of implied_probs) nm) (\<lambda>q.
       and_then (py_div q total_implied) (\<lambda>v.
         Inr (vf(nm \<mapsto> v),
              (case od nm of
                 None \<Rightarrow> best_odds_per_outcome
               | Some p \<Rightarrow>
                   (case best_odds_per_outcome nm of
                      None \<Rightarrow> best_odds_per_outcome(nm \<mapsto> p)
                    | Some b \<Rightarrow> if flt b p then best_odds_per_outcome(nm \<mapsto> p)
                                else best_odds_per_outcome)))))"

fun bookmaker_step_f :: "python \<Rightarrow> string list \<Rightarrow> bookmaker_f \<Rightarrow> fprices \<times> bm_data_f list \<Rightarrow> exit + fprices \<times> bm_data_f list" where
  "bookmaker_step_f py outcome_names b (best_odds_per_outcome, bookmaker_data) =
     and_then (first_market_f b) (\<lambda>m.
       let od = make_outcomes_dict_f (outcomes_f m) in
       and_then (for_each (implied_step_f od) outcome_names []) (\<lambda>implied_probs.
         let total_implied = float_sum py (map snd implied_probs) in
         if feq total_implied (Fin 0) then Inr (best_odds_per_outcome, bookmaker_data)
         else
           and_then (for_each (vig_step_f od implied_probs total_implied) outcome_names
                       (Map.empty, best_odds_per_outcome)) (\<lambda>(vf, best').
             Inr (best', bookmaker_data @ [\<lparr>vig_free_f = vf, outcomes_dict_f = od\<rparr>]))))"

text \<open>Lines 104-111. \<^verbatim>\<open>price == best_odds_per_outcome.get(name)\<close> is false for a missing key.\<close>

definition candidate_step_f :: "fprices \<Rightarrow> string \<Rightarrow> bm_data_f \<Rightarrow> pyfloat list \<Rightarrow> exit + pyfloat list" where
  "candidate_step_f best_odds_per_outcome nm bd probs_for_consensus =
     (if (case outcomes_dict_f bd nm of
            Some p \<Rightarrow> (case best_odds_per_outcome nm of Some b \<Rightarrow> feq p b | None \<Rightarrow> False)
          | None \<Rightarrow> False)
      then Inr probs_for_consensus
      else and_then (getitem (vig_free_f bd) nm) (\<lambda>v.
             if flt (Fin 0) v then Inr (probs_for_consensus @ [v]) else Inr probs_for_consensus))"

definition all_step_f :: "string \<Rightarrow> bm_data_f \<Rightarrow> pyfloat list \<Rightarrow> exit + pyfloat list" where
  "all_step_f nm bd vig_free_probs_all =
     and_then (getitem (vig_free_f bd) nm) (\<lambda>v.
       if flt (Fin 0) v then Inr (vig_free_probs_all @ [v]) else Inr vig_free_probs_all)"

definition probs_for_f :: "fprices \<Rightarrow> bm_data_f list \<Rightarrow> string \<Rightarrow> exit + pyfloat list" where
  "probs_for_f best_odds_per_outcome bookmaker_data nm =
     and_then (for_each (candidate_step_f best_odds_per_outcome nm) bookmaker_data []) (\<lambda>probs_for_consensus.
       if length probs_for_consensus = 0 then
         and_then (for_each (all_step_f nm) bookmaker_data []) (\<lambda>vig_free_probs_all.
           if length vig_free_probs_all = 0 then Inl NoConsensus else Inr vig_free_probs_all)
       else Inr probs_for_consensus)"

text \<open>
  Lines 119-129. The list holds floats that passed \<^verbatim>\<open>> 0\<close>, hence no NaN, and \<^verbatim>\<open>sorted\<close> is
  the sort by the order of \<^verbatim>\<open><\<close>.
\<close>

definition median_f :: "pyfloat list \<Rightarrow> exit + pyfloat" where
  "median_f probs =
     (let sorted_probs = sort_key fkey probs; n = length sorted_probs in
      if n = 0 then Inl (Raised IndexError)
      else if n = 1 then Inr (sorted_probs ! 0)
      else if n mod 2 = 0 then
        py_div (fadd (sorted_probs ! (n div 2 - 1)) (sorted_probs ! (n div 2))) (Fin 2)
      else Inr (sorted_probs ! (n div 2)))"

definition consensus_step_f :: "fprices \<Rightarrow> bm_data_f list \<Rightarrow> string \<Rightarrow> (string \<times> pyfloat) list \<Rightarrow> exit + (string \<times> pyfloat) list" where
  "consensus_step_f best_odds_per_outcome bookmaker_data nm consensus_probs =
     and_then (probs_for_f best_odds_per_outcome bookmaker_data nm) (\<lambda>probs.
       and_then (median_f probs) (\<lambda>median_prob.
         Inr (AList.update nm median_prob consensus_probs)))"

definition fair_step_f :: "(string \<times> pyfloat) list \<Rightarrow> pyfloat \<Rightarrow> string \<Rightarrow> fprices \<Rightarrow> exit + fprices" where
  "fair_step_f consensus_probs total_consensus nm fair_probs =
     and_then (getitem (map_of consensus_probs) nm) (\<lambda>c.
       and_then (py_div c total_consensus) (\<lambda>v. Inr (fair_probs(nm \<mapsto> v))))"

definition estimate_f :: "python \<Rightarrow> string list \<Rightarrow> bookmaker_f list \<Rightarrow> exit + fprices \<times> fprices" where
  "estimate_f py outcome_names bms =
     and_then (for_each (bookmaker_step_f py outcome_names) bms (Map.empty, [])) (\<lambda>(best_odds_per_outcome, bookmaker_data).
       if length bookmaker_data = 0 then Inl NoUsableBookmaker
       else
         and_then (for_each (consensus_step_f best_odds_per_outcome bookmaker_data) outcome_names []) (\<lambda>consensus_probs.
           let total_consensus = float_sum py (map snd consensus_probs) in
           if feq total_consensus (Fin 0) then Inl ZeroConsensus
           else
             and_then (for_each (fair_step_f consensus_probs total_consensus) outcome_names Map.empty) (\<lambda>fair_probs.
               Inr (fair_probs, best_odds_per_outcome))))"

definition estimation_f :: "python \<Rightarrow> game_f \<Rightarrow> exit + string list \<times> fprices \<times> fprices" where
  "estimation_f py g =
     (case bookmakers_f g of
        None \<Rightarrow> Inl InsufficientOutcomes
      | Some bms \<Rightarrow>
          if length bms = 0 then Inl InsufficientOutcomes
          else
            and_then (for_each add_names_f bms []) (\<lambda>seen.
              if card (set seen) < 2 then Inl InsufficientOutcomes
              else
                let outcome_names = set_order py seen in
                and_then (estimate_f py outcome_names bms) (\<lambda>(fair_probs, best_odds_per_outcome).
                  Inr (outcome_names, fair_probs, best_odds_per_outcome))))"

subsection \<open>Lines 139-160 in floating point\<close>

text \<open>Line 150: the product is rounded, then the difference.\<close>

definition expected_roi_f :: "pyfloat \<Rightarrow> pyfloat \<Rightarrow> pyfloat" where
  "expected_roi_f fair_prob best_price = fsub (fmul fair_prob best_price) (Fin 1)"

fun select_step_f :: "fprices \<Rightarrow> fprices \<Rightarrow> string \<Rightarrow> string option \<times> pyfloat \<times> pyfloat \<Rightarrow> exit + string option \<times> pyfloat \<times> pyfloat" where
  "select_step_f fair_probs best_odds_per_outcome nm (best_pick, best_roi, best_odds) =
     (case best_odds_per_outcome nm of
        None \<Rightarrow> Inr (best_pick, best_roi, best_odds)
      | Some best_price \<Rightarrow>
          and_then (getitem fair_probs nm) (\<lambda>fair_prob.
            if flt best_roi (expected_roi_f fair_prob best_price)
            then Inr (Some nm, expected_roi_f fair_prob best_price, best_price)
            else Inr (best_pick, best_roi, best_odds)))"

definition select_loop_f :: "string list \<Rightarrow> fprices \<Rightarrow> fprices \<Rightarrow> exit + string option \<times> pyfloat \<times> pyfloat" where
  "select_loop_f outcome_names fair_probs best_odds_per_outcome =
     for_each (select_step_f fair_probs best_odds_per_outcome) outcome_names (None, Fin (- 1), Fin 0)"

text \<open>Line 157: \<^verbatim>\<open>best_roi >= 0.05\<close>, with the float \<^verbatim>\<open>0.05\<close>.\<close>

definition threshold_f :: "string option \<times> pyfloat \<times> pyfloat \<Rightarrow> exit + string option \<times> pyfloat \<times> pyfloat" where
  "threshold_f st = (case st of (best_pick, best_roi, best_odds) \<Rightarrow>
     if fle min_edge best_roi then Inr (best_pick, best_odds, best_roi) else Inl NoQualifyingPick)"

definition naive_edge_trace_f :: "python \<Rightarrow> game_f \<Rightarrow> exit + string option \<times> pyfloat \<times> pyfloat" where
  "naive_edge_trace_f py g =
     and_then (estimation_f py g) (\<lambda>(outcome_names, fair_probs, best_odds_per_outcome).
       and_then (select_loop_f outcome_names fair_probs best_odds_per_outcome) threshold_f)"

definition naive_edge_f :: "python \<Rightarrow> game_f \<Rightarrow> (string option \<times> pyfloat \<times> pyfloat) option" where
  "naive_edge_f py g = (case naive_edge_trace_f py g of Inl _ \<Rightarrow> None | Inr r \<Rightarrow> Some r)"

subsection \<open>Lines 210-225 in floating point\<close>

definition collect_step_f :: "python \<Rightarrow> game_f \<Rightarrow> (pyfloat \<times> game_f \<times> string option \<times> pyfloat) list \<Rightarrow> (pyfloat \<times> game_f \<times> string option \<times> pyfloat) list" where
  "collect_step_f py g picks =
     (case naive_edge_f py g of
        None \<Rightarrow> picks
      | Some (pick, odds, edge) \<Rightarrow> picks @ [(edge, g, pick, odds)])"

definition value_picks_f :: "python \<Rightarrow> game_f list \<Rightarrow> (pyfloat \<times> game_f \<times> string option \<times> pyfloat) list" where
  "value_picks_f py games = fold (collect_step_f py) games []"

text \<open>
  Lines 224-225. The edges passed \<^verbatim>\<open>>= 0.05\<close>, so none is NaN; the stable sort with
  \<^verbatim>\<open>reverse=True\<close> is the stable ascending sort on the reversed order.
\<close>

definition fkey_desc :: "pyfloat \<Rightarrow> int \<times> rat" where
  "fkey_desc a = (case fkey a of (i, x) \<Rightarrow> (- i, - x))"

definition top_picks_f :: "python \<Rightarrow> game_f list \<Rightarrow> (pyfloat \<times> game_f \<times> string option \<times> pyfloat) list" where
  "top_picks_f py games =
     take MAX_PICKS_PER_SPORT (sort_key (\<lambda>x. fkey_desc (fst x)) (value_picks_f py games))"

subsection \<open>Example matches with float prices\<close>

definition quote_f :: "string \<Rightarrow> rat \<Rightarrow> outcome_f" where
  "quote_f nm x = \<lparr>name_f = nm, price_f = rnd x\<rparr>"

definition book_f :: "outcome_f list \<Rightarrow> bookmaker_f" where
  "book_f ocs = \<lparr>markets_f = [\<lparr>outcomes_f = ocs\<rparr>]\<rparr>"

definition match_f :: "bookmaker_f list \<Rightarrow> game_f" where
  "match_f bms = \<lparr>bookmakers_f = Some bms\<rparr>"

definition cpython :: python where
  "cpython = \<lparr>set_order = remdups, float_sum = left_sum\<rparr>"

section \<open>Properties\<close>

subsection \<open>Sequencing and loops\<close>

lemma and_then_simps [simp]: "and_then (Inl e) f = Inl e" "and_then (Inr x) f = f x"
  by (simp_all add: and_then_def)

lemma and_then_Inr_iff: "and_then m f = Inr y \<longleftrightarrow> (\<exists>x. m = Inr x \<and> f x = Inr y)"
  by (cases m) simp_all

lemma and_then_Inl_iff: "and_then m f = Inl e \<longleftrightarrow> m = Inl e \<or> (\<exists>x. m = Inr x \<and> f x = Inl e)"
  by (cases m) simp_all

lemmas eval_defs = add_names_def first_market_def
     estimate_def make_outcomes_dict_def implied_step_def getitem_def consensus_step_def probs_for_def
     candidate_step_def all_step_def median_def fair_step_def select_loop_def expected_roi_def threshold_def Let_def

lemma two_names:
  assumes "distinct ns" "set ns = {a, b}" "a \<noteq> b"
  shows "ns = [a, b] \<or> ns = [b, a]"
proof -
  have "card (set ns) = 2" using assms by simp
  then have "length ns = 2" using assms(1) by (simp add: distinct_card)
  then obtain x y where ns: "ns = [x, y]"
    by (metis (no_types, opaque_lifting) One_nat_def Suc_1 length_0_conv length_Suc_conv)
  with assms show ?thesis by (auto simp: doubleton_eq_iff)
qed

lemma scenario_A_AB:
  "\<exists>fair best. estimate [''A'', ''B''] (the (bookmakers scenario_A)) = Inr (fair, best)
     \<and> best ''A'' = Some 2 \<and> best ''B'' = Some 2
     \<and> fair ''A'' = Some (38 / 77) \<and> fair ''B'' = Some (39 / 77)
     \<and> select_loop [''A'', ''B''] fair best = Inr (Some ''B'', 1 / 77, 2)"
  by (simp add: scenario_A_def eval_defs)

lemma scenario_A_BA:
  "\<exists>fair best. estimate [''B'', ''A''] (the (bookmakers scenario_A)) = Inr (fair, best)
     \<and> best ''A'' = Some 2 \<and> best ''B'' = Some 2
     \<and> fair ''A'' = Some (38 / 77) \<and> fair ''B'' = Some (39 / 77)
     \<and> select_loop [''B'', ''A''] fair best = Inr (Some ''B'', 1 / 77, 2)"
  by (simp add: scenario_A_def eval_defs)

lemma scenario_A_seen: "for_each add_names (the (bookmakers scenario_A)) [] = Inr [''A'', ''B'', ''A'', ''B'']"
  by (simp add: scenario_A_def eval_defs)


subsection \<open>Scenario A\<close>

lemma estimation_reached:
  assumes "bookmakers g = Some bms" "bms \<noteq> []" "for_each add_names bms [] = Inr seen"
    "\<not> card (set seen) < 2"
  shows "estimation list_of g =
    and_then (estimate (list_of seen) bms) (\<lambda>(f, b). Inr (list_of seen, f, b))"
  using assms by (simp add: estimation_def Let_def)

text \<open>
  Claim C2. On scenario A the best prices are 2 for both outcomes, the fair probabilities are
  \<open>38/77\<close> (about 0.4935) for A and \<open>39/77\<close> (about 0.5065) for B, the expected returns
  are \<open>-1/77\<close> and \<open>1/77\<close> (about -0.013 and 0.013): a round of the selection loop computes
  them for A and for B, the loop ends with B and \<open>1/77\<close>, which is below 0.05, and
  \<^verbatim>\<open>naive_edge\<close> returns \<^verbatim>\<open>None\<close> at line 160, whatever the order in which the set of
  names is enumerated.
\<close>

theorem scenario_A_no_pick:
  assumes "list_of_set list_of"
  shows "\<exists>names fair best.
       estimation list_of scenario_A = Inr (names, fair, best)
     \<and> best ''A'' = Some 2 \<and> best ''B'' = Some 2
     \<and> fair ''A'' = Some (38 / 77) \<and> fair ''B'' = Some (39 / 77)
     \<and> \<bar>38 / 77 - 4935 / 10000\<bar> < (1 / 10000 :: rat)
     \<and> \<bar>39 / 77 - 5065 / 10000\<bar> < (1 / 10000 :: rat)
     \<and> expected_roi (38 / 77) 2 = - 1 / 77 \<and> expected_roi (39 / 77) 2 = 1 / 77
     \<and> \<bar>- 1 / 77 - (- 13 / 1000)\<bar> < (1 / 1000 :: rat)
     \<and> \<bar>1 / 77 - 13 / 1000\<bar> < (1 / 1000 :: rat)
     \<and> - 1 / 77 < (1 / 20 :: rat) \<and> 1 / 77 < (1 / 20 :: rat)
     \<and> select_step fair best ''A'' (None, - 1, 0) = Inr (Some ''A'', - 1 / 77, 2)
     \<and> select_step fair best ''B'' (None, - 1, 0) = Inr (Some ''B'', 1 / 77, 2)
     \<and> select_loop names fair best = Inr (Some ''B'', 1 / 77, 2)
     \<and> threshold (Some ''B'', 1 / 77, 2) = Inl NoQualifyingPick
     \<and> naive_edge_trace list_of scenario_A = Inl NoQualifyingPick
     \<and> naive_edge list_of scenario_A = None"
proof -
  let ?seen = "[''A'', ''B'', ''A'', ''B'']"
  have d: "distinct (list_of ?seen)" and s: "set (list_of ?seen) = {''A'', ''B''}"
    using assms by (auto simp: list_of_set_def)
  have c: "\<not> card (set ?seen) < 2" by (subst card_set) simp
  have bm: "bookmakers scenario_A = Some (the (bookmakers scenario_A))" "the (bookmakers scenario_A) \<noteq> []"
    by (simp_all add: scenario_A_def)
  have arith: "\<bar>38 / 77 - 4935 / 10000\<bar> < (1 / 10000 :: rat)" "\<bar>39 / 77 - 5065 / 10000\<bar> < (1 / 10000 :: rat)"
     "expected_roi (38 / 77) 2 = - 1 / 77" "expected_roi (39 / 77) 2 = 1 / 77"
     "\<bar>- 1 / 77 - (- 13 / 1000)\<bar> < (1 / 1000 :: rat)" "\<bar>1 / 77 - 13 / 1000\<bar> < (1 / 1000 :: rat)"
     "- 1 / 77 < (1 / 20 :: rat)" "1 / 77 < (1 / 20 :: rat)"
    by (simp_all add: expected_roi_def)
  from two_names [OF d s] consider "list_of ?seen = [''A'', ''B'']" | "list_of ?seen = [''B'', ''A'']"
    by auto
  then show ?thesis
  proof cases
    case 1
    from scenario_A_AB obtain fair best where
      e: "estimate [''A'', ''B''] (the (bookmakers scenario_A)) = Inr (fair, best)"
      and v: "best ''A'' = Some 2" "best ''B'' = Some 2" "fair ''A'' = Some (38 / 77)" "fair ''B'' = Some (39 / 77)"
      and l: "select_loop [''A'', ''B''] fair best = Inr (Some ''B'', 1 / 77, 2)"
      by blast
    have est: "estimation list_of scenario_A = Inr ([''A'', ''B''], fair, best)"
      by (simp add: estimation_reached [OF bm scenario_A_seen c] 1 e)
    have tr: "naive_edge_trace list_of scenario_A = Inl NoQualifyingPick"
      by (simp add: naive_edge_trace_def est l threshold_def)
    have st: "select_step fair best ''A'' (None, - 1, 0) = Inr (Some ''A'', - 1 / 77, 2)"
      "select_step fair best ''B'' (None, - 1, 0) = Inr (Some ''B'', 1 / 77, 2)"
      "threshold (Some ''B'', 1 / 77, 2) = Inl NoQualifyingPick"
      by (simp_all add: v getitem_def expected_roi_def threshold_def)
    show ?thesis using est v arith tr st l by (simp add: naive_edge_def)
  next
    case 2
    from scenario_A_BA obtain fair best where
      e: "estimate [''B'', ''A''] (the (bookmakers scenario_A)) = Inr (fair, best)"
      and v: "best ''A'' = Some 2" "best ''B'' = Some 2" "fair ''A'' = Some (38 / 77)" "fair ''B'' = Some (39 / 77)"
      and l: "select_loop [''B'', ''A''] fair best = Inr (Some ''B'', 1 / 77, 2)"
      by blast
    have est: "estimation list_of scenario_A = Inr ([''B'', ''A''], fair, best)"
      by (simp add: estimation_reached [OF bm scenario_A_seen c] 2 e)
    have tr: "naive_edge_trace list_of scenario_A = Inl NoQualifyingPick"
      by (simp add: naive_edge_trace_def est l threshold_def)
    have st: "select_step fair best ''A'' (None, - 1, 0) = Inr (Some ''A'', - 1 / 77, 2)"
      "select_step fair best ''B'' (None, - 1, 0) = Inr (Some ''B'', 1 / 77, 2)"
      "threshold (Some ''B'', 1 / 77, 2) = Inl NoQualifyingPick"
      by (simp_all add: v getitem_def expected_roi_def threshold_def)
    show ?thesis using est v arith tr st l by (simp add: naive_edge_def)
  qed
qed

lemma list_of_set_remdups: "list_of_set remdups"
  by (simp add: list_of_set_def)

theorem scenario_A_no_pick_witness:
  "list_of_set remdups \<and> naive_edge remdups scenario_A = None"
  using scenario_A_no_pick [OF list_of_set_remdups] list_of_set_remdups by blast

subsection \<open>Fair probabilities and selection\<close>

lemma fair_loop:
  assumes "for_each (fair_step cp tot) names m0 = Inr fair"
  shows "(\<forall>n\<in>set names. \<exists>c. map_of cp n = Some c \<and> fair n = Some (c / tot))
       \<and> (\<forall>n. n \<notin> set names \<longrightarrow> fair n = m0 n)"
  using assms
proof (induction names arbitrary: m0)
  case Nil
  then show ?case by simp
next
  case (Cons n names)
  from Cons.prems obtain m1 where step: "fair_step cp tot n m0 = Inr m1"
    and rest1: "for_each (fair_step cp tot) names m1 = Inr fair"
    by (auto simp: and_then_Inr_iff)
  from step obtain c where c: "map_of cp n = Some c" and m1: "m1 = m0(n \<mapsto> c / tot)"
    by (auto simp: fair_step_def getitem_def and_then_Inr_iff split: option.splits)
  from rest1 m1 have rest: "for_each (fair_step cp tot) names (m0(n \<mapsto> c / tot)) = Inr fair"
    by simp
  from Cons.IH [OF rest] have
    ih1: "\<forall>m\<in>set names. \<exists>c. map_of cp m = Some c \<and> fair m = Some (c / tot)"
    and ih2: "\<forall>m. m \<notin> set names \<longrightarrow> fair m = (m0(n \<mapsto> c / tot)) m"
    by blast+
  have "\<exists>c. map_of cp n = Some c \<and> fair n = Some (c / tot)"
  proof (cases "n \<in> set names")
    case True
    with ih1 show ?thesis by blast
  next
    case False
    with ih2 have "fair n = Some (c / tot)" by simp
    with c show ?thesis by simp
  qed
  moreover have "\<forall>m. m \<notin> set (n # names) \<longrightarrow> fair m = m0 m"
    using ih2 by simp
  ultimately show ?case using ih1 by simp
qed



text \<open>The loop cannot raise when every name has a fair probability.\<close>

lemma select_total:
  assumes "\<forall>n\<in>set names. fair n \<noteq> None"
  shows "\<exists>st. for_each (select_step fair best) names (bp, br, bo) = Inr st"
  using assms
proof (induction names arbitrary: bp br bo)
  case Nil
  show ?case by simp
next
  case (Cons n names)
  then obtain f where f: "fair n = Some f" by auto
  have "\<exists>st. select_step fair best n (bp, br, bo) = Inr st"
    by (cases "best n") (simp_all add: getitem_def f)
  then obtain bp1 br1 bo1 where step: "select_step fair best n (bp, br, bo) = Inr (bp1, br1, bo1)"
    by (metis prod_cases3)
  from Cons obtain st where rest: "for_each (select_step fair best) names (bp1, br1, bo1) = Inr st"
    by fastforce
  have "for_each (select_step fair best) (n # names) (bp, br, bo) = Inr st"
    by (simp only: for_each.simps step and_then_simps rest)
  then show ?case by blast
qed


lemma estimation_InrD:
  assumes "estimation list_of g = Inr (names, fair, best)"
  obtains bms seen data cp where
    "bookmakers g = Some bms" "bms \<noteq> []" "for_each add_names bms [] = Inr seen"
    "2 \<le> card (set seen)" "names = list_of seen"
    "for_each (bookmaker_step names) bms (Map.empty, []) = Inr (best, data)" "data \<noteq> []"
    "for_each (consensus_step best data) names [] = Inr cp" "sum_list (map snd cp) \<noteq> 0"
    "for_each (fair_step cp (sum_list (map snd cp))) names Map.empty = Inr fair"
proof -
  from assms obtain bms where bms: "bookmakers g = Some bms" "bms \<noteq> []"
    by (auto simp: estimation_def split: option.splits if_splits)
  with assms obtain seen where seen: "for_each add_names bms [] = Inr seen" "2 \<le> card (set seen)"
    and names: "names = list_of seen"
    and est: "estimate names bms = Inr (fair, best)"
    by (auto simp: estimation_def Let_def and_then_Inr_iff split: if_splits)
  from est obtain data where
    loop: "for_each (bookmaker_step names) bms (Map.empty, []) = Inr (best, data)" and data: "data \<noteq> []"
    and rest: "and_then (for_each (consensus_step best data) names [])
       (\<lambda>cp. if sum_list (map snd cp) = 0 then Inl ZeroConsensus
          else and_then (for_each (fair_step cp (sum_list (map snd cp))) names Map.empty)
            (\<lambda>fair_probs. Inr (fair_probs, best))) = Inr (fair, best)"
    by (auto simp: estimate_def Let_def and_then_Inr_iff split: if_splits)
  from rest obtain cp where cp: "for_each (consensus_step best data) names [] = Inr cp"
    "sum_list (map snd cp) \<noteq> 0"
    "for_each (fair_step cp (sum_list (map snd cp))) names Map.empty = Inr fair"
    by (auto simp: and_then_Inr_iff split: if_splits)
  from bms seen names loop data cp show ?thesis by (rule that)
qed

lemma estimation_fair_defined:
  assumes "estimation list_of g = Inr (names, fair, best)"
  shows "\<forall>n\<in>set names. fair n \<noteq> None"
proof -
  from assms obtain cp where "for_each (fair_step cp (sum_list (map snd cp))) names Map.empty = Inr fair"
    by (rule estimation_InrD)
  from fair_loop [OF this] show ?thesis by fastforce
qed

lemma naive_edge_after_estimation:
  assumes "estimation list_of g = Inr (names, fair, best)"
  obtains bp br bo where
    "select_loop names fair best = Inr (bp, br, bo)"
    "naive_edge_trace list_of g = (if 1 / 20 \<le> br then Inr (bp, bo, br) else Inl NoQualifyingPick)"
    "naive_edge list_of g = (if 1 / 20 \<le> br then Some (bp, bo, br) else None)"
proof -
  from select_total [OF estimation_fair_defined [OF assms]]
  obtain st where "select_loop names fair best = Inr st"
    unfolding select_loop_def by blast
  then obtain bp br bo where l: "select_loop names fair best = Inr (bp, br, bo)"
    by (metis prod_cases3)
  have t: "naive_edge_trace list_of g = (if 1 / 20 \<le> br then Inr (bp, bo, br) else Inl NoQualifyingPick)"
    by (simp add: naive_edge_trace_def assms l threshold_def)
  have "naive_edge list_of g = (if 1 / 20 \<le> br then Some (bp, bo, br) else None)"
    by (simp add: naive_edge_def t)
  with l t show ?thesis by (rule that)
qed


subsection \<open>Scenario B\<close>

lemma scenario_B_seen: "for_each add_names (the (bookmakers scenario_B)) [] = Inr [''A'', ''B'', ''A'', ''B'']"
  by (simp add: scenario_B_def eval_defs)

lemma scenario_B_estimate:
  "\<exists>fair best. estimate [''A'', ''B''] (the (bookmakers scenario_B)) = Inr (fair, best)
     \<and> best ''A'' = Some 3 \<and> best ''B'' = Some (13 / 5)
     \<and> fair ''A'' = Some (572 / 1187) \<and> fair ''B'' = Some (615 / 1187)
     \<and> select_loop [''A'', ''B''] fair best = Inr (Some ''A'', 529 / 1187, 3)"
  by (simp add: scenario_B_def eval_defs)

lemma scenario_B_estimation:
  "\<exists>fair best. estimation remdups scenario_B = Inr ([''A'', ''B''], fair, best)
     \<and> best ''A'' = Some 3 \<and> best ''B'' = Some (13 / 5)
     \<and> fair ''A'' = Some (572 / 1187) \<and> fair ''B'' = Some (615 / 1187)
     \<and> select_loop [''A'', ''B''] fair best = Inr (Some ''A'', 529 / 1187, 3)"
proof -
  let ?seen = "[''A'', ''B'', ''A'', ''B'']"
  have c: "\<not> card (set ?seen) < 2" by (subst card_set) simp
  have bm: "bookmakers scenario_B = Some (the (bookmakers scenario_B))" "the (bookmakers scenario_B) \<noteq> []"
    by (simp_all add: scenario_B_def)
  from scenario_B_estimate obtain fair best where
    e: "estimate [''A'', ''B''] (the (bookmakers scenario_B)) = Inr (fair, best)"
    and v: "best ''A'' = Some 3" "best ''B'' = Some (13 / 5)" "fair ''A'' = Some (572 / 1187)"
      "fair ''B'' = Some (615 / 1187)" "select_loop [''A'', ''B''] fair best = Inr (Some ''A'', 529 / 1187, 3)"
    by blast
  have "estimation remdups scenario_B = Inr ([''A'', ''B''], fair, best)"
    by (simp add: estimation_reached [OF bm scenario_B_seen c] e)
  with v show ?thesis by blast
qed




subsection \<open>The picks of a sport\<close>








subsection \<open>The outcome names\<close>

lemma fold_snoc_names: "fold (\<lambda>oc s. s @ [name oc]) ocs acc = acc @ map name ocs"
  by (induction ocs arbitrary: acc) simp_all

lemma add_names_eq:
  "add_names b seen = (if markets b = [] then Inl (Raised IndexError) else Inr (seen @ map name (quotes b)))"
  by (simp add: add_names_def first_market_def quotes_def fold_snoc_names split: list.splits)

lemma names_loop:
  "for_each add_names bms acc =
     (if \<forall>b\<in>set bms. markets b \<noteq> [] then Inr (acc @ concat (map (\<lambda>b. map name (quotes b)) bms))
      else Inl (Raised IndexError))"
proof (induction bms arbitrary: acc)
  case Nil
  show ?case by simp
next
  case (Cons b bms)
  show ?case
  proof (cases "markets b = []")
    case True
    then have "add_names b acc = Inl (Raised IndexError)" by (simp add: add_names_eq)
    then have "for_each add_names (b # bms) acc = Inl (Raised IndexError)"
      by (simp only: for_each.simps and_then_simps)
    with True show ?thesis by simp
  next
    case False
    then have "add_names b acc = Inr (acc @ map name (quotes b))" by (simp add: add_names_eq)
    then have "for_each add_names (b # bms) acc = for_each add_names bms (acc @ map name (quotes b))"
      by (simp only: for_each.simps and_then_simps)
    with False show ?thesis by (simp add: Cons.IH)
  qed
qed

lemma names_loop_set:
  assumes "for_each add_names bms [] = Inr seen"
  shows "set seen = outcome_universe bms" and "\<forall>b\<in>set bms. markets b \<noteq> []"
proof -
  from assms show m: "\<forall>b\<in>set bms. markets b \<noteq> []"
    by (simp add: names_loop split: if_splits)
  with assms have "seen = concat (map (\<lambda>b. map name (quotes b)) bms)"
    by (simp add: names_loop)
  then show "set seen = outcome_universe bms"
    by (simp add: outcome_universe_def)
qed

text \<open>
  Claim C7. A match without bookmakers, or whose quote sets name fewer than two distinct
  outcomes, makes \<^verbatim>\<open>naive_edge\<close> return \<^verbatim>\<open>None\<close>; the function is total, so nothing is raised
  to the caller. When every bookmaker has a market, the exit is one of the two early returns
  (lines 52 and 60); otherwise it is the exception handler.
\<close>

theorem insufficient_outcomes:
  assumes "bookmakers g = None \<or> bookmakers g = Some []
         \<or> (\<exists>bms. bookmakers g = Some bms \<and> card (outcome_universe bms) < 2)"
  shows "naive_edge list_of g = None
       \<and> ((\<forall>bms. bookmakers g = Some bms \<longrightarrow> (\<forall>b\<in>set bms. markets b \<noteq> []))
            \<longrightarrow> naive_edge_trace list_of g = Inl InsufficientOutcomes)
       \<and> (naive_edge_trace list_of g = Inl InsufficientOutcomes
            \<or> naive_edge_trace list_of g = Inl (Raised IndexError))"
proof -
  have est: "estimation list_of g =
      (if \<forall>bms. bookmakers g = Some bms \<longrightarrow> (\<forall>b\<in>set bms. markets b \<noteq> [])
       then Inl InsufficientOutcomes else Inl (Raised IndexError))"
  proof (cases "bookmakers g")
    case None
    then show ?thesis by (simp add: estimation_def)
  next
    case (Some bms)
    show ?thesis
    proof (cases "bms = []")
      case True
      with Some show ?thesis by (simp add: estimation_def)
    next
      case False
      with Some assms have c: "card (outcome_universe bms) < 2" by auto
      show ?thesis
      proof (cases "\<forall>b\<in>set bms. markets b \<noteq> []")
        case True
        let ?seen = "concat (map (\<lambda>b. map name (quotes b)) bms)"
        from True have l: "for_each add_names bms [] = Inr ?seen" by (simp add: names_loop)
        from names_loop_set(1) [OF l] c have "card (set ?seen) < 2" by simp
        with Some False l True show ?thesis by (simp add: estimation_def)
      next
        case nm: False
        then have "for_each add_names bms [] = Inl (Raised IndexError)" by (simp add: names_loop)
        with Some False nm show ?thesis by (simp add: estimation_def)
      qed
    qed
  qed
  then show ?thesis by (simp add: naive_edge_def naive_edge_trace_def)
qed

theorem insufficient_outcomes_witness:
  "(\<exists>bms. bookmakers degenerate = Some bms \<and> card (outcome_universe bms) < 2)
   \<and> naive_edge remdups degenerate = None
   \<and> naive_edge_trace remdups degenerate = Inl InsufficientOutcomes"
proof -
  have h: "\<exists>bms. bookmakers degenerate = Some bms \<and> card (outcome_universe bms) < 2"
    by (simp add: degenerate_def outcome_universe_def quotes_def)
  have m: "\<forall>bms. bookmakers degenerate = Some bms \<longrightarrow> (\<forall>b\<in>set bms. markets b \<noteq> [])"
    by (simp add: degenerate_def)
  from h have "bookmakers degenerate = None \<or> bookmakers degenerate = Some []
         \<or> (\<exists>bms. bookmakers degenerate = Some bms \<and> card (outcome_universe bms) < 2)"
    by blast
  from insufficient_outcomes [OF this, of remdups] m h show ?thesis by blast
qed

subsection \<open>One bookmaker\<close>

lemma update_fresh: "k \<notin> fst ` set al \<Longrightarrow> AList.update k v al = al @ [(k, v)]"
  by (induction al) auto

lemma implied_step_eq:
  "implied_step od n acc =
     (if od n = Some 0 then Inl (Raised ZeroDivisionError) else Inr (AList.update n (implied od n) acc))"
  by (simp add: implied_step_def implied_def split: option.splits)

lemma implied_loop:
  assumes "distinct names" "set names \<inter> fst ` set acc = {}"
  shows "for_each (implied_step od) names acc =
     (if \<exists>n\<in>set names. od n = Some 0 then Inl (Raised ZeroDivisionError)
      else Inr (acc @ map (\<lambda>n. (n, implied od n)) names))"
  using assms
proof (induction names arbitrary: acc)
  case Nil
  show ?case by simp
next
  case (Cons n names)
  show ?case
  proof (cases "od n = Some 0")
    case True
    then have "implied_step od n acc = Inl (Raised ZeroDivisionError)" by (simp add: implied_step_eq)
    then have "for_each (implied_step od) (n # names) acc = Inl (Raised ZeroDivisionError)"
      by (simp only: for_each.simps and_then_simps)
    with True show ?thesis by simp
  next
    case False
    from Cons.prems have fresh: "n \<notin> fst ` set acc" by auto
    with False have "implied_step od n acc = Inr (acc @ [(n, implied od n)])"
      by (simp add: implied_step_eq update_fresh)
    then have step: "for_each (implied_step od) (n # names) acc =
        for_each (implied_step od) names (acc @ [(n, implied od n)])"
      by (simp only: for_each.simps and_then_simps)
    from Cons.prems have "distinct names" "set names \<inter> fst ` set (acc @ [(n, implied od n)]) = {}"
      by auto
    from Cons.IH [OF this] step False show ?thesis by simp
  qed
qed

lemma map_of_graph: "n \<in> set names \<Longrightarrow> map_of (map (\<lambda>n. (n, f n)) names) n = Some (f n)"
  by (induction names) auto

lemma vig_step_eq:
  assumes "map_of ip n = Some q"
  shows "vig_step od ip tot n (vf, best) =
     Inr (vf(n \<mapsto> q / tot),
          (case od n of None \<Rightarrow> best
           | Some p \<Rightarrow> (case best n of None \<Rightarrow> best(n \<mapsto> p)
                        | Some b \<Rightarrow> if p > b then best(n \<mapsto> p) else best)))"
  using assms by (simp add: getitem_def)

lemma vig_loop:
  assumes "distinct names" "\<forall>n\<in>set names. map_of ip n = Some (f n)"
  shows "\<exists>vf' best'. for_each (vig_step od ip tot) names (vf, best) = Inr (vf', best')
     \<and> (\<forall>n. vf' n = (if n \<in> set names then Some (f n / tot) else vf n))
     \<and> (\<forall>n. best' n = (if n \<in> set names then
                          (case od n of None \<Rightarrow> best n
                           | Some p \<Rightarrow> (case best n of None \<Rightarrow> Some p | Some b \<Rightarrow> Some (max b p)))
                        else best n))"
  using assms
proof (induction names arbitrary: vf best)
  case Nil
  show ?case by simp
next
  case (Cons n names)
  let ?vf1 = "vf(n \<mapsto> f n / tot)"
  let ?best1 = "(case od n of None \<Rightarrow> best
           | Some p \<Rightarrow> (case best n of None \<Rightarrow> best(n \<mapsto> p)
                        | Some b \<Rightarrow> if p > b then best(n \<mapsto> p) else best))"
  from Cons.prems have q: "map_of ip n = Some (f n)" by simp
  have step: "for_each (vig_step od ip tot) (n # names) (vf, best) =
      for_each (vig_step od ip tot) names (?vf1, ?best1)"
    by (simp only: for_each.simps vig_step_eq [OF q] and_then_simps)
  from Cons.prems have d: "distinct names" "\<forall>n\<in>set names. map_of ip n = Some (f n)" and nn: "n \<notin> set names"
    by auto
  from Cons.IH [OF d, of ?vf1 ?best1] obtain vf' best' where
    r: "for_each (vig_step od ip tot) names (?vf1, ?best1) = Inr (vf', best')"
    and v: "\<forall>m. vf' m = (if m \<in> set names then Some (f m / tot) else ?vf1 m)"
    and b: "\<forall>m. best' m = (if m \<in> set names then
                          (case od m of None \<Rightarrow> ?best1 m
                           | Some p \<Rightarrow> (case ?best1 m of None \<Rightarrow> Some p | Some b \<Rightarrow> Some (max b p)))
                        else ?best1 m)"
    by blast
  have b1_other: "?best1 m = best m" if "m \<noteq> n" for m
    using that by (simp split: option.splits)
  have b1_self: "?best1 n = (case od n of None \<Rightarrow> best n
                           | Some p \<Rightarrow> (case best n of None \<Rightarrow> Some p | Some b \<Rightarrow> Some (max b p)))"
    by (simp add: max_def split: option.splits)
  have v': "\<forall>m. vf' m = (if m \<in> set (n # names) then Some (f m / tot) else vf m)"
    using v nn by auto
  have b': "\<forall>m. best' m = (if m \<in> set (n # names) then
                          (case od m of None \<Rightarrow> best m
                           | Some p \<Rightarrow> (case best m of None \<Rightarrow> Some p | Some b \<Rightarrow> Some (max b p)))
                        else best m)"
  proof
    fix m
    show "best' m = (if m \<in> set (n # names) then
                          (case od m of None \<Rightarrow> best m
                           | Some p \<Rightarrow> (case best m of None \<Rightarrow> Some p | Some b \<Rightarrow> Some (max b p)))
                        else best m)"
    proof (cases "m = n")
      case True
      from b nn have "best' n = ?best1 n" by simp
      with b1_self show ?thesis unfolding True by simp
    next
      case False
      with b b1_other [OF False] show ?thesis by (simp cong: option.case_cong)
    qed
  qed
  from step r v' b' show ?case by simp
qed


lemma first_market_eq:
  "first_market b = (if markets b = [] then Inl (Raised IndexError) else Inr (hd (markets b)))"
  "markets b \<noteq> [] \<Longrightarrow> outcomes (hd (markets b)) = quotes b"
  by (simp_all add: first_market_def quotes_def split: list.splits)

lemma sum_list_graph: "sum_list (map snd (map (\<lambda>n. (n, f n)) names)) = (\<Sum>n\<leftarrow>names. f n)"
  by (simp add: comp_def)

lemma bookmaker_step_raise:
  assumes "markets b = []"
  shows "bookmaker_step names b (best, data) = Inl (Raised IndexError)"
  using assms by (simp add: first_market_eq)

lemma bookmaker_step_zero:
  assumes "distinct names" "markets b \<noteq> []" "\<exists>n\<in>set names. make_outcomes_dict (quotes b) n = Some 0"
  shows "bookmaker_step names b (best, data) = Inl (Raised ZeroDivisionError)"
proof -
  have "for_each (implied_step (make_outcomes_dict (quotes b))) names [] = Inl (Raised ZeroDivisionError)"
    using implied_loop [OF assms(1), of "[]" "make_outcomes_dict (quotes b)"] assms(3) by simp
  with assms(2) show ?thesis by (simp add: first_market_eq Let_def)
qed

lemma bookmaker_step_skip:
  assumes "distinct names" "markets b \<noteq> []" "\<forall>n\<in>set names. make_outcomes_dict (quotes b) n \<noteq> Some 0"
    "\<not> usable names b"
  shows "bookmaker_step names b (best, data) = Inr (best, data)"
proof -
  let ?od = "make_outcomes_dict (quotes b)"
  have "for_each (implied_step ?od) names [] = Inr (map (\<lambda>n. (n, implied ?od n)) names)"
    using implied_loop [OF assms(1), of "[]" ?od] assms(3) by simp
  moreover have "sum_list (map snd (map (\<lambda>n. (n, implied ?od n)) names)) = 0"
    using assms(4) by (simp only: sum_list_graph) (simp add: usable_def total_implied_of_def)
  ultimately show ?thesis using assms(2) by (simp add: first_market_eq Let_def del: map_map)
qed

lemma bookmaker_step_usable:
  assumes "distinct names" "markets b \<noteq> []" "\<forall>n\<in>set names. make_outcomes_dict (quotes b) n \<noteq> Some 0"
    "usable names b"
  shows "bookmaker_step names b (best, data) =
     Inr (raise_best names (make_outcomes_dict (quotes b)) best, data @ [usable_data names b])"
proof -
  let ?od = "make_outcomes_dict (quotes b)"
  let ?ip = "map (\<lambda>n. (n, implied ?od n)) names"
  let ?tot = "total_implied_of names ?od"
  have ip: "for_each (implied_step ?od) names [] = Inr ?ip"
    using implied_loop [OF assms(1), of "[]" ?od] assms(3) by simp
  have tot: "sum_list (map snd ?ip) = ?tot"
    by (simp only: sum_list_graph total_implied_of_def)
  have nz: "?tot \<noteq> 0" using assms(4) by (simp add: usable_def)
  have "\<forall>n\<in>set names. map_of ?ip n = Some (implied ?od n)" by (simp add: map_of_graph)
  from vig_loop [OF assms(1) this, of ?od ?tot Map.empty best] obtain vf' best' where
    r: "for_each (vig_step ?od ?ip ?tot) names (Map.empty, best) = Inr (vf', best')"
    and v: "\<forall>n. vf' n = (if n \<in> set names then Some (implied ?od n / ?tot) else None)"
    and b: "\<forall>n. best' n = (if n \<in> set names then
                          (case ?od n of None \<Rightarrow> best n
                           | Some p \<Rightarrow> (case best n of None \<Rightarrow> Some p | Some b \<Rightarrow> Some (max b p)))
                        else best n)"
    by auto
  from v have vf: "vf' = (\<lambda>n. if n \<in> set names then Some (devigged names ?od n) else None)"
    by (auto simp: devigged_def)
  from b have be: "best' = raise_best names ?od best"
    by (auto simp: raise_best_def)
  have "bookmaker_step names b (best, data) = Inr (best', data @ [\<lparr>vig_free = vf', outcomes_dict = ?od\<rparr>])"
    using assms(2) nz by (simp add: first_market_eq Let_def ip tot r del: map_map)
  then show ?thesis by (simp add: vf be usable_data_def)
qed

lemma bookmaker_loop_ok:
  assumes "distinct names"
    and "\<forall>b\<in>set bms. markets b \<noteq> [] \<and> (\<forall>n\<in>set names. make_outcomes_dict (quotes b) n \<noteq> Some 0)"
  shows "for_each (bookmaker_step names) bms (best, data) =
     Inr (best_after names bms best, data @ map (usable_data names) (filter (usable names) bms))"
  using assms(2)
proof (induction bms arbitrary: best data)
  case Nil
  show ?case by (simp add: best_after_def)
next
  case (Cons b bms)
  then have b: "markets b \<noteq> []" "\<forall>n\<in>set names. make_outcomes_dict (quotes b) n \<noteq> Some 0"
    and rest: "\<forall>b\<in>set bms. markets b \<noteq> [] \<and> (\<forall>n\<in>set names. make_outcomes_dict (quotes b) n \<noteq> Some 0)"
    by simp_all
  show ?case
  proof (cases "usable names b")
    case True
    have "for_each (bookmaker_step names) (b # bms) (best, data) =
        for_each (bookmaker_step names) bms
          (raise_best names (make_outcomes_dict (quotes b)) best, data @ [usable_data names b])"
      by (simp only: for_each.simps bookmaker_step_usable [OF assms(1) b True] and_then_simps)
    with True show ?thesis by (simp add: Cons.IH [OF rest] best_after_def)
  next
    case False
    have "for_each (bookmaker_step names) (b # bms) (best, data) =
        for_each (bookmaker_step names) bms (best, data)"
      by (simp only: for_each.simps bookmaker_step_skip [OF assms(1) b False] and_then_simps)
    with False show ?thesis by (simp add: Cons.IH [OF rest] best_after_def)
  qed
qed

lemma bookmaker_loop_Inr:
  assumes "distinct names" "for_each (bookmaker_step names) bms (best, data) = Inr r"
  shows "\<forall>b\<in>set bms. markets b \<noteq> [] \<and> (\<forall>n\<in>set names. make_outcomes_dict (quotes b) n \<noteq> Some 0)"
  using assms(2)
proof (induction bms arbitrary: best data)
  case Nil
  show ?case by simp
next
  case (Cons b bms)
  from Cons.prems obtain best1 data1 where
    step: "bookmaker_step names b (best, data) = Inr (best1, data1)"
    and rest: "for_each (bookmaker_step names) bms (best1, data1) = Inr r"
    by (auto simp only: for_each.simps and_then_Inr_iff)
  have "markets b \<noteq> []"
    using step bookmaker_step_raise [of b names best data] by auto
  moreover from this have "\<forall>n\<in>set names. make_outcomes_dict (quotes b) n \<noteq> Some 0"
    using step bookmaker_step_zero [OF assms(1), of b best data] by auto
  ultimately show ?case using Cons.IH [OF rest] by simp
qed








subsection \<open>Consensus\<close>

lemma median_eq:
  assumes "ps \<noteq> []"
  shows "median ps = Inr (median_of ps)"
proof -
  from assms have "length (sort ps) \<noteq> 0" by simp
  moreover have "length (sort ps) = 1 \<Longrightarrow> \<not> length (sort ps) mod 2 = 0" by simp
  ultimately show ?thesis
    unfolding median_def median_of_def Let_def by (auto simp del: length_sort)
qed

lemma median_of_positive:
  assumes "ps \<noteq> []" "\<forall>p\<in>set ps. 0 < p"
  shows "0 < median_of ps"
proof -
  let ?s = "sort ps"
  let ?n = "length ?s"
  have n: "0 < ?n" using assms(1) by simp
  have pos: "0 < ?s ! i" if "i < ?n" for i
  proof -
    from that have "?s ! i \<in> set ?s" by (rule nth_mem)
    with assms(2) show ?thesis by simp
  qed
  show ?thesis
  proof (cases "?n mod 2 = 0")
    case True
    with n have "?n div 2 - 1 < ?n" "?n div 2 < ?n" by arith+
    then have "0 < ?s ! (?n div 2 - 1)" "0 < ?s ! (?n div 2)" by (auto intro: pos)
    with True show ?thesis unfolding median_of_def Let_def by (simp del: length_sort)
  next
    case False
    from n have "?n div 2 < ?n" by arith
    then have "0 < ?s ! (?n div 2)" by (rule pos)
    with False show ?thesis unfolding median_of_def Let_def by (simp del: length_sort)
  qed
qed

lemma candidate_step_eq:
  assumes "vig_free bd nm \<noteq> None"
  shows "candidate_step best nm bd acc =
     Inr (if \<not> excluded best nm bd \<and> 0 < dv bd nm then acc @ [dv bd nm] else acc)"
  using assms by (auto simp: candidate_step_def excluded_def dv_def getitem_def split: option.splits)

lemma all_step_eq:
  assumes "vig_free bd nm \<noteq> None"
  shows "all_step nm bd acc = Inr (if 0 < dv bd nm then acc @ [dv bd nm] else acc)"
  using assms by (auto simp: all_step_def dv_def getitem_def split: option.splits)

lemma candidate_loop:
  assumes "\<forall>bd\<in>set data. vig_free bd nm \<noteq> None"
  shows "for_each (candidate_step best nm) data acc = Inr (acc @ positive_candidates best data nm)"
  using assms
proof (induction data arbitrary: acc)
  case Nil
  show ?case by (simp add: positive_candidates_def)
next
  case (Cons bd data)
  then have bd: "vig_free bd nm \<noteq> None" and rest: "\<forall>bd\<in>set data. vig_free bd nm \<noteq> None"
    by simp_all
  have "for_each (candidate_step best nm) (bd # data) acc =
      for_each (candidate_step best nm) data
        (if \<not> excluded best nm bd \<and> 0 < dv bd nm then acc @ [dv bd nm] else acc)"
    by (simp only: for_each.simps candidate_step_eq [OF bd] and_then_simps)
  then show ?case by (simp add: Cons.IH [OF rest] positive_candidates_def)
qed

lemma all_loop:
  assumes "\<forall>bd\<in>set data. vig_free bd nm \<noteq> None"
  shows "for_each (all_step nm) data acc = Inr (acc @ positive_all data nm)"
  using assms
proof (induction data arbitrary: acc)
  case Nil
  show ?case by (simp add: positive_all_def)
next
  case (Cons bd data)
  then have bd: "vig_free bd nm \<noteq> None" and rest: "\<forall>bd\<in>set data. vig_free bd nm \<noteq> None"
    by simp_all
  have "for_each (all_step nm) (bd # data) acc =
      for_each (all_step nm) data (if 0 < dv bd nm then acc @ [dv bd nm] else acc)"
    by (simp only: for_each.simps all_step_eq [OF bd] and_then_simps)
  then show ?case by (simp add: Cons.IH [OF rest] positive_all_def)
qed

lemma probs_for_eq:
  assumes "\<forall>bd\<in>set data. vig_free bd nm \<noteq> None"
  shows "probs_for best data nm =
     (if positive_all data nm = [] then Inl NoConsensus else Inr (chosen_probs best data nm))"
proof -
  have sub: "positive_all data nm = [] \<Longrightarrow> positive_candidates best data nm = []"
    by (auto simp: positive_all_def positive_candidates_def filter_empty_conv)
  show ?thesis
    using sub by (auto simp: probs_for_def candidate_loop [OF assms] all_loop [OF assms] chosen_probs_def)
qed

lemma chosen_probs_positive:
  "\<forall>p\<in>set (chosen_probs best data nm). 0 < p"
  by (auto simp: chosen_probs_def positive_candidates_def positive_all_def)

lemma chosen_probs_nonempty:
  "positive_all data nm \<noteq> [] \<Longrightarrow> chosen_probs best data nm \<noteq> []"
  by (simp add: chosen_probs_def)

lemma consensus_of_positive:
  "positive_all data nm \<noteq> [] \<Longrightarrow> 0 < consensus_of best data nm"
  unfolding consensus_of_def
  by (rule median_of_positive [OF chosen_probs_nonempty chosen_probs_positive])

lemma consensus_step_eq:
  assumes "\<forall>bd\<in>set data. vig_free bd nm \<noteq> None"
  shows "consensus_step best data nm acc =
     (if positive_all data nm = [] then Inl NoConsensus
      else Inr (AList.update nm (consensus_of best data nm) acc))"
  by (simp add: consensus_step_def probs_for_eq [OF assms] median_eq chosen_probs_nonempty consensus_of_def)

lemma consensus_loop:
  assumes "distinct names" "set names \<inter> fst ` set acc = {}"
    and "\<forall>bd\<in>set data. \<forall>n\<in>set names. vig_free bd n \<noteq> None"
  shows "for_each (consensus_step best data) names acc =
     (if \<exists>n\<in>set names. positive_all data n = [] then Inl NoConsensus
      else Inr (acc @ map (\<lambda>n. (n, consensus_of best data n)) names))"
  using assms
proof (induction names arbitrary: acc)
  case Nil
  show ?case by simp
next
  case (Cons n names)
  from Cons.prems have vf: "\<forall>bd\<in>set data. vig_free bd n \<noteq> None" by simp
  show ?case
  proof (cases "positive_all data n = []")
    case True
    then have "consensus_step best data n acc = Inl NoConsensus"
      by (simp add: consensus_step_eq [OF vf])
    then have "for_each (consensus_step best data) (n # names) acc = Inl NoConsensus"
      by (simp only: for_each.simps and_then_simps)
    with True show ?thesis by simp
  next
    case False
    from Cons.prems have fresh: "n \<notin> fst ` set acc" by auto
    with False have "consensus_step best data n acc = Inr (acc @ [(n, consensus_of best data n)])"
      by (simp add: consensus_step_eq [OF vf] update_fresh)
    then have step: "for_each (consensus_step best data) (n # names) acc =
        for_each (consensus_step best data) names (acc @ [(n, consensus_of best data n)])"
      by (simp only: for_each.simps and_then_simps)
    from Cons.prems have "distinct names"
      "set names \<inter> fst ` set (acc @ [(n, consensus_of best data n)]) = {}"
      "\<forall>bd\<in>set data. \<forall>n\<in>set names. vig_free bd n \<noteq> None"
      by auto
    from Cons.IH [OF this] step False show ?thesis by simp
  qed
qed

lemma fair_loop_total:
  assumes "\<forall>n\<in>set names. map_of cp n \<noteq> None"
  shows "\<exists>fair. for_each (fair_step cp tot) names m0 = Inr fair"
  using assms
proof (induction names arbitrary: m0)
  case Nil
  show ?case by simp
next
  case (Cons n names)
  then obtain c where c: "map_of cp n = Some c" by auto
  have step: "fair_step cp tot n m0 = Inr (m0(n \<mapsto> c / tot))"
    by (simp add: fair_step_def getitem_def c)
  from Cons obtain fair where "for_each (fair_step cp tot) names (m0(n \<mapsto> c / tot)) = Inr fair"
    by fastforce
  then have "for_each (fair_step cp tot) (n # names) m0 = Inr fair"
    by (simp only: for_each.simps step and_then_simps)
  then show ?case by blast
qed

lemma fair_loop_graph:
  "for_each (fair_step (map (\<lambda>n. (n, c n)) names) tot) names Map.empty =
     Inr (\<lambda>n. if n \<in> set names then Some (c n / tot) else None)"
proof -
  let ?cp = "map (\<lambda>n. (n, c n)) names"
  have "\<forall>n\<in>set names. map_of ?cp n \<noteq> None" by (simp add: map_of_graph)
  from fair_loop_total [OF this] obtain fair where
    f: "for_each (fair_step ?cp tot) names Map.empty = Inr fair"
    by blast
  from fair_loop [OF f] have "fair n = (if n \<in> set names then Some (c n / tot) else None)" for n
    by (auto simp: map_of_graph)
  then have "fair = (\<lambda>n. if n \<in> set names then Some (c n / tot) else None)" by auto
  with f show ?thesis by simp
qed

subsection \<open>The estimation as a whole\<close>

lemma sum_list_pos_rat:
  assumes "xs \<noteq> []" "\<forall>x\<in>set xs. 0 < (f x :: rat)"
  shows "0 < (\<Sum>x\<leftarrow>xs. f x)"
  using assms
proof (induction xs)
  case Nil
  then show ?case by simp
next
  case (Cons x xs)
  show ?case
  proof (cases "xs = []")
    case True
    with Cons.prems show ?thesis by simp
  next
    case False
    with Cons have "0 < (\<Sum>x\<leftarrow>xs. f x)" "0 < f x" by simp_all
    then show ?thesis by simp
  qed
qed

lemma usable_bookmakers_vig_free:
  "\<forall>bd\<in>set (usable_bookmakers names bms). \<forall>n\<in>set names. vig_free bd n \<noteq> None"
  by (auto simp: usable_bookmakers_def usable_data_def)

lemma bookmaker_loop_Inl:
  assumes "distinct names" "for_each (bookmaker_step names) bms (best, data) = Inl e"
  shows "e = Raised IndexError \<or> e = Raised ZeroDivisionError"
  using assms(2)
proof (induction bms arbitrary: best data)
  case Nil
  then show ?case by simp
next
  case (Cons b bms)
  consider "markets b = []"
    | "markets b \<noteq> []" "\<exists>n\<in>set names. make_outcomes_dict (quotes b) n = Some 0"
    | "markets b \<noteq> []" "\<forall>n\<in>set names. make_outcomes_dict (quotes b) n \<noteq> Some 0" "\<not> usable names b"
    | "markets b \<noteq> []" "\<forall>n\<in>set names. make_outcomes_dict (quotes b) n \<noteq> Some 0" "usable names b"
    by blast
  then show ?case
  proof cases
    case 1
    from Cons.prems show ?thesis
      by (simp only: for_each.simps bookmaker_step_raise [OF 1] and_then_simps) simp
  next
    case 2
    from Cons.prems show ?thesis
      by (simp only: for_each.simps bookmaker_step_zero [OF assms(1) 2] and_then_simps) simp
  next
    case 3
    from Cons.prems have "for_each (bookmaker_step names) bms (best, data) = Inl e"
      by (simp only: for_each.simps bookmaker_step_skip [OF assms(1) 3] and_then_simps)
    then show ?thesis by (rule Cons.IH)
  next
    case 4
    from Cons.prems have "for_each (bookmaker_step names) bms
        (raise_best names (make_outcomes_dict (quotes b)) best, data @ [usable_data names b]) = Inl e"
      by (simp only: for_each.simps bookmaker_step_usable [OF assms(1) 4] and_then_simps)
    then show ?thesis by (rule Cons.IH)
  qed
qed

lemma estimate_readable:
  assumes "distinct names" "names \<noteq> []" "readable names bms"
  shows "estimate names bms =
     (if usable_bookmakers names bms = [] then Inl NoUsableBookmaker
      else if \<exists>n\<in>set names. positive_all (usable_bookmakers names bms) n = [] then Inl NoConsensus
      else Inr (fair_of names (best_after names bms Map.empty) (usable_bookmakers names bms),
                best_after names bms Map.empty))"
proof -
  let ?best = "best_after names bms Map.empty"
  let ?data = "usable_bookmakers names bms"
  let ?cp = "map (\<lambda>n. (n, consensus_of ?best ?data n)) names"
  from assms(3) have ok: "\<forall>b\<in>set bms. markets b \<noteq> [] \<and> (\<forall>n\<in>set names. make_outcomes_dict (quotes b) n \<noteq> Some 0)"
    by (simp add: readable_def)
  have p1: "for_each (bookmaker_step names) bms (Map.empty, []) = Inr (?best, ?data)"
    using bookmaker_loop_ok [OF assms(1) ok, of Map.empty "[]"] by (simp add: usable_bookmakers_def)
  have p2: "for_each (consensus_step ?best ?data) names [] =
     (if \<exists>n\<in>set names. positive_all ?data n = [] then Inl NoConsensus else Inr ?cp)"
    using consensus_loop [where names = names and acc = "[]" and data = ?data and best = ?best]
      assms(1) usable_bookmakers_vig_free [of names bms]
    by simp
  have tot: "sum_list (map snd ?cp) = (\<Sum>m\<leftarrow>names. consensus_of ?best ?data m)"
    by (simp only: sum_list_graph)
  have pos: "0 < (\<Sum>m\<leftarrow>names. consensus_of ?best ?data m)"
    if "\<not> (\<exists>n\<in>set names. positive_all ?data n = [])"
    using that by (intro sum_list_pos_rat [OF assms(2)]) (simp add: consensus_of_positive)
  have p3: "for_each (fair_step ?cp (\<Sum>m\<leftarrow>names. consensus_of ?best ?data m)) names Map.empty =
      Inr (fair_of names ?best ?data)"
    unfolding fair_of_def by (rule fair_loop_graph)
  show ?thesis
  proof (cases "?data = []")
    case True
    with p1 show ?thesis by (simp add: estimate_def)
  next
    case data: False
    show ?thesis
    proof (cases "\<exists>n\<in>set names. positive_all ?data n = []")
      case True
      with data p1 p2 show ?thesis by (simp add: estimate_def)
    next
      case False
      from pos [OF False] have nz: "(\<Sum>m\<leftarrow>names. consensus_of ?best ?data m) \<noteq> 0" by simp
      have "estimate names bms = Inr (fair_of names ?best ?data, ?best)"
        unfolding estimate_def
        by (simp only: p1 and_then_simps prod.case p2 False if_False Let_def tot nz p3)
           (simp add: data)
      with data False show ?thesis by simp
    qed
  qed
qed

lemma estimate_unreadable:
  assumes "distinct names" "\<not> readable names bms"
  shows "estimate names bms = Inl (Raised IndexError) \<or> estimate names bms = Inl (Raised ZeroDivisionError)"
proof (cases "for_each (bookmaker_step names) bms (Map.empty, [])")
  case (Inl e)
  from bookmaker_loop_Inl [OF assms(1) Inl] Inl show ?thesis by (auto simp: estimate_def)
next
  case (Inr r)
  from bookmaker_loop_Inr [OF assms(1) Inr] assms(2) show ?thesis by (simp add: readable_def)
qed

lemma estimate_InrD:
  assumes "distinct names" "names \<noteq> []" "estimate names bms = Inr (fair, best)"
  shows "readable names bms"
    and "usable_bookmakers names bms \<noteq> []"
    and "\<forall>n\<in>set names. positive_all (usable_bookmakers names bms) n \<noteq> []"
    and "best = best_after names bms Map.empty"
    and "fair = fair_of names best (usable_bookmakers names bms)"
proof -
  show r: "readable names bms"
    using estimate_unreadable [OF assms(1), of bms] assms(3) by auto
  from estimate_readable [OF assms(1,2) r] assms(3)
  show "usable_bookmakers names bms \<noteq> []"
    and "\<forall>n\<in>set names. positive_all (usable_bookmakers names bms) n \<noteq> []"
    and "best = best_after names bms Map.empty"
    and "fair = fair_of names best (usable_bookmakers names bms)"
    by (auto split: if_splits)
qed

lemma estimate_exits:
  assumes "distinct names" "names \<noteq> []" "estimate names bms = Inl e"
  shows "e = Raised IndexError \<or> e = Raised ZeroDivisionError \<or> e = NoUsableBookmaker \<or> e = NoConsensus"
proof (cases "readable names bms")
  case True
  from estimate_readable [OF assms(1,2) True] assms(3) show ?thesis by (auto split: if_splits)
next
  case False
  from estimate_unreadable [OF assms(1) False] assms(3) show ?thesis by auto
qed

lemma estimation_cases:
  assumes "list_of_set list_of"
  obtains (early) "estimation list_of g = Inl InsufficientOutcomes"
    | (raised) "estimation list_of g = Inl (Raised IndexError)"
    | (reached) bms names where "bookmakers g = Some bms" "bms \<noteq> []" "\<forall>b\<in>set bms. markets b \<noteq> []"
        "distinct names" "set names = outcome_universe bms" "2 \<le> card (set names)" "names \<noteq> []"
        "estimation list_of g = and_then (estimate names bms) (\<lambda>(f, b). Inr (names, f, b))"
proof (cases "bookmakers g")
  case None
  then have "estimation list_of g = Inl InsufficientOutcomes" by (simp add: estimation_def)
  then show ?thesis by (rule early)
next
  case (Some bms)
  show ?thesis
  proof (cases "bms = []")
    case True
    with Some have "estimation list_of g = Inl InsufficientOutcomes" by (simp add: estimation_def)
    then show ?thesis by (rule early)
  next
    case False
    show ?thesis
    proof (cases "\<forall>b\<in>set bms. markets b \<noteq> []")
      case nm: False
      then have "for_each add_names bms [] = Inl (Raised IndexError)" by (simp add: names_loop)
      with Some False have "estimation list_of g = Inl (Raised IndexError)" by (simp add: estimation_def)
      then show ?thesis by (rule raised)
    next
      case True
      let ?seen = "concat (map (\<lambda>b. map name (quotes b)) bms)"
      from True have l: "for_each add_names bms [] = Inr ?seen" by (simp add: names_loop)
      have u: "set ?seen = outcome_universe bms" by (rule names_loop_set(1) [OF l])
      show ?thesis
      proof (cases "card (set ?seen) < 2")
        case c: True
        with Some False l have "estimation list_of g = Inl InsufficientOutcomes"
          by (simp add: estimation_def)
        then show ?thesis by (rule early)
      next
        case c: False
        let ?names = "list_of ?seen"
        from assms have d: "distinct ?names" and s: "set ?names = set ?seen"
          by (simp_all add: list_of_set_def)
        from c s have c2: "2 \<le> card (set ?names)" by simp
        then have ne: "?names \<noteq> []" by auto
        from s u have su: "set ?names = outcome_universe bms" by simp
        have "estimation list_of g = and_then (estimate ?names bms) (\<lambda>(f, b). Inr (?names, f, b))"
          by (rule estimation_reached [OF Some False l c])
        with Some False True d su c2 ne show ?thesis by (rule reached)
      qed
    qed
  qed
qed

lemma estimation_success:
  assumes "list_of_set list_of" "estimation list_of g = Inr (names, fair, best)"
  obtains bms where "bookmakers g = Some bms" "bms \<noteq> []"
    "distinct names" "set names = outcome_universe bms" "2 \<le> card (set names)" "names \<noteq> []"
    "readable names bms" "usable_bookmakers names bms \<noteq> []"
    "\<forall>n\<in>set names. positive_all (usable_bookmakers names bms) n \<noteq> []"
    "best = best_after names bms Map.empty"
    "fair = fair_of names best (usable_bookmakers names bms)"
proof (cases rule: estimation_cases [OF assms(1), of g, case_names early raised reached])
  case early
  with assms(2) show ?thesis by simp
next
  case raised
  with assms(2) show ?thesis by simp
next
  case (reached bms names')
  from reached(8) assms(2)
  have "and_then (estimate names' bms) (\<lambda>(f, b). Inr (names', f, b)) = Inr (names, fair, best)"
    by simp
  then have n: "names' = names" and e: "estimate names bms = Inr (fair, best)"
    by (auto simp: and_then_Inr_iff)
  from reached(4,7) n have d: "distinct names" and ne: "names \<noteq> []" by simp_all
  from reached(1,2) d reached(5,6) [unfolded n] ne estimate_InrD [OF d ne e]
  show ?thesis by (rule that)
qed

lemma estimation_exits:
  assumes "list_of_set list_of" "estimation list_of g = Inl e"
  shows "e = InsufficientOutcomes \<or> e = Raised IndexError \<or> e = Raised ZeroDivisionError
       \<or> e = NoUsableBookmaker \<or> e = NoConsensus"
proof (cases rule: estimation_cases [OF assms(1), of g, case_names early raised reached])
  case early
  with assms(2) show ?thesis by simp
next
  case raised
  with assms(2) show ?thesis by simp
next
  case (reached bms names)
  from reached(8) assms(2)
  have "and_then (estimate names bms) (\<lambda>(f, b). Inr (names, f, b)) = Inl e"
    by simp
  then have "estimate names bms = Inl e"
    by (auto simp: and_then_Inl_iff)
  from estimate_exits [OF reached(4,7) this] show ?thesis by blast
qed

lemma naive_edge_trace_exits:
  assumes "list_of_set list_of" "naive_edge_trace list_of g = Inl e"
  shows "e = InsufficientOutcomes \<or> e = Raised IndexError \<or> e = Raised ZeroDivisionError
       \<or> e = NoUsableBookmaker \<or> e = NoConsensus \<or> e = NoQualifyingPick"
proof (cases "estimation list_of g")
  case (Inl e')
  with assms(2) have "e' = e" by (simp add: naive_edge_trace_def)
  with estimation_exits [OF assms(1) Inl] show ?thesis by blast
next
  case (Inr r)
  obtain names fair best where r: "r = (names, fair, best)" by (cases r)
  from Inr r have est: "estimation list_of g = Inr (names, fair, best)" by simp
  then obtain bp br bo where
    "naive_edge_trace list_of g = (if 1 / 20 \<le> br then Inr (bp, bo, br) else Inl NoQualifyingPick)"
    by (rule naive_edge_after_estimation)
  with assms(2) show ?thesis by (auto split: if_splits)
qed

subsection \<open>Coverage and positivity\<close>






lemma consensus_values_positive:
  assumes "distinct names" "for_each (bookmaker_step names) bms (Map.empty, []) = Inr (best, data)"
    and "for_each (consensus_step best data) names [] = Inr cp"
  shows "cp = map (\<lambda>n. (n, consensus_of best data n)) names"
    and "\<forall>n\<in>set names. positive_all data n \<noteq> []"
    and "\<forall>v\<in>snd ` set cp. 0 < v"
proof -
  from bookmaker_loop_Inr [OF assms(1,2)] have
    ok: "\<forall>b\<in>set bms. markets b \<noteq> [] \<and> (\<forall>n\<in>set names. make_outcomes_dict (quotes b) n \<noteq> Some 0)" .
  from bookmaker_loop_ok [OF assms(1) ok, of Map.empty "[]"] assms(2)
  have data: "data = usable_bookmakers names bms" by (simp add: usable_bookmakers_def)
  have vf: "\<forall>bd\<in>set data. \<forall>n\<in>set names. vig_free bd n \<noteq> None"
    unfolding data by (rule usable_bookmakers_vig_free)
  from consensus_loop [where names = names and acc = "[]" and data = data and best = best] assms(1,3) vf
  show cp: "cp = map (\<lambda>n. (n, consensus_of best data n)) names"
    and pa: "\<forall>n\<in>set names. positive_all data n \<noteq> []"
    by (auto split: if_splits)
  from pa show "\<forall>v\<in>snd ` set cp. 0 < v"
    by (auto simp: cp consensus_of_positive)
qed

text \<open>
  Claim C9. Every consensus probability is strictly positive: it is the median of a list that
  is not empty and holds strictly positive de-vigged probabilities only. Their sum is therefore
  positive, and \<^verbatim>\<open>naive_edge\<close> never leaves at line 133. The candidates are filtered by
  \<^verbatim>\<open>> 0\<close>, so this holds whatever the prices are.
\<close>

theorem zero_consensus_unreachable:
  assumes "list_of_set list_of"
  shows "naive_edge_trace list_of g \<noteq> Inl ZeroConsensus
     \<and> (\<forall>names bms best data cp.
          distinct names \<longrightarrow> names \<noteq> []
          \<longrightarrow> for_each (bookmaker_step names) bms (Map.empty, []) = Inr (best, data)
          \<longrightarrow> for_each (consensus_step best data) names [] = Inr cp
          \<longrightarrow> (\<forall>v\<in>snd ` set cp. 0 < v) \<and> 0 < sum_list (map snd cp))"
proof -
  have 1: "naive_edge_trace list_of g \<noteq> Inl ZeroConsensus"
    using naive_edge_trace_exits [OF assms, of g ZeroConsensus] by auto
  have 2: "(\<forall>v\<in>snd ` set cp. 0 < v) \<and> 0 < sum_list (map snd cp)"
    if "distinct names" "names \<noteq> []"
      "for_each (bookmaker_step names) bms (Map.empty, []) = Inr (best, data)"
      "for_each (consensus_step best data) names [] = Inr cp"
    for names bms best data cp
  proof -
    from consensus_values_positive [OF that(1,3,4)] have
      cp: "cp = map (\<lambda>n. (n, consensus_of best data n)) names"
      and pa: "\<forall>n\<in>set names. positive_all data n \<noteq> []"
      and pos: "\<forall>v\<in>snd ` set cp. 0 < v"
      by blast+
    have "0 < (\<Sum>n\<leftarrow>names. consensus_of best data n)"
      using pa by (intro sum_list_pos_rat [OF that(2)]) (simp add: consensus_of_positive)
    then have "0 < sum_list (map snd cp)" unfolding cp by (simp only: sum_list_graph)
    with pos show ?thesis by blast
  qed
  from 1 2 show ?thesis by blast
qed

theorem zero_consensus_unreachable_witness:
  "list_of_set remdups \<and> naive_edge_trace remdups scenario_A \<noteq> Inl ZeroConsensus"
  using zero_consensus_unreachable [OF list_of_set_remdups, of scenario_A] list_of_set_remdups
  by blast

subsection \<open>Best odds\<close>

lemma fold_outcomes_dict:
  "fold (\<lambda>oc d. d(name oc \<mapsto> price oc)) ocs m n = Some p \<Longrightarrow>
     m n = Some p \<or> (\<exists>oc\<in>set ocs. name oc = n \<and> price oc = p)"
  by (induction ocs arbitrary: m) (fastforce split: if_splits)+

lemma fold_outcomes_dict_dom:
  "dom (fold (\<lambda>oc d. d(name oc \<mapsto> price oc)) ocs m) = dom m \<union> name ` set ocs"
  by (induction ocs arbitrary: m) auto

lemma outcomes_dict_value:
  "make_outcomes_dict ocs n = Some p \<Longrightarrow> \<exists>oc\<in>set ocs. name oc = n \<and> price oc = p"
  unfolding make_outcomes_dict_def by (drule fold_outcomes_dict) simp

lemma outcomes_dict_dom: "dom (make_outcomes_dict ocs) = name ` set ocs"
  by (simp add: make_outcomes_dict_def fold_outcomes_dict_dom)

lemma positive_dict:
  assumes "\<forall>oc\<in>set (quotes b). 0 < price oc" "make_outcomes_dict (quotes b) n = Some p"
  shows "0 < p"
  using outcomes_dict_value [OF assms(2)] assms(1) by auto

lemma implied_nonneg:
  assumes "\<forall>oc\<in>set (quotes b). 0 < price oc"
  shows "0 \<le> implied (make_outcomes_dict (quotes b)) n"
  using positive_dict [OF assms, of n]
  by (cases "make_outcomes_dict (quotes b) n") (simp_all add: implied_def less_imp_le)

lemma implied_pos:
  assumes "\<forall>oc\<in>set (quotes b). 0 < price oc" "make_outcomes_dict (quotes b) n = Some p"
  shows "0 < implied (make_outcomes_dict (quotes b)) n"
  using positive_dict [OF assms] assms(2) by (simp add: implied_def)

lemma sum_list_pos_member:
  assumes "\<forall>x\<in>set xs. 0 \<le> (f x :: rat)" "y \<in> set xs" "0 < f y"
  shows "0 < (\<Sum>x\<leftarrow>xs. f x)"
proof -
  have nonneg: "0 \<le> (\<Sum>x\<leftarrow>zs. f x)" if "\<forall>x\<in>set zs. 0 \<le> f x" for zs
    using that by (induction zs) simp_all
  have "f y \<le> (\<Sum>x\<leftarrow>xs. f x)"
    using assms(1,2)
  proof (induction xs)
    case Nil
    then show ?case by simp
  next
    case (Cons x xs)
    show ?case
    proof (cases "y = x")
      case True
      from Cons.prems have "0 \<le> (\<Sum>x\<leftarrow>xs. f x)" by (intro nonneg) simp
      with True show ?thesis by simp
    next
      case False
      with Cons have "f y \<le> (\<Sum>x\<leftarrow>xs. f x)" "0 \<le> f x" by simp_all
      then show ?thesis by simp
    qed
  qed
  with assms(3) show ?thesis by simp
qed

lemma positive_usable:
  assumes "\<forall>oc\<in>set (quotes b). 0 < price oc" "n \<in> set names" "make_outcomes_dict (quotes b) n = Some p"
  shows "usable names b"
proof -
  have "0 < (\<Sum>m\<leftarrow>names. implied (make_outcomes_dict (quotes b)) m)"
    using implied_nonneg [OF assms(1)] assms(2) implied_pos [OF assms(1,3)]
    by (intro sum_list_pos_member [where y = n]) simp_all
  then show ?thesis by (simp add: usable_def total_implied_of_def)
qed

lemma raise_best_defined:
  "best n \<noteq> None \<Longrightarrow> raise_best names od best n \<noteq> None"
  by (auto simp: raise_best_def split: option.splits)

lemma raise_best_defines:
  "n \<in> set names \<Longrightarrow> od n \<noteq> None \<Longrightarrow> raise_best names od best n \<noteq> None"
  by (auto simp: raise_best_def split: option.splits)

lemma raise_best_value:
  "raise_best names od best n = Some p \<Longrightarrow> best n = Some p \<or> (n \<in> set names \<and> od n = Some p)"
  by (auto simp: raise_best_def max_def split: option.splits if_splits)

lemma best_after_Cons:
  "best_after names (b # bms) best =
     best_after names bms
       (if usable names b then raise_best names (make_outcomes_dict (quotes b)) best else best)"
  by (simp add: best_after_def)

lemma best_after_defined:
  "best n \<noteq> None \<Longrightarrow> best_after names bms best n \<noteq> None"
proof (induction bms arbitrary: best)
  case Nil
  then show ?case by (simp add: best_after_def)
next
  case (Cons b bms)
  let ?best1 = "if usable names b then raise_best names (make_outcomes_dict (quotes b)) best else best"
  have "?best1 n \<noteq> None"
    using Cons.prems
      raise_best_defined [where best = best and n = n and names = names
        and od = "make_outcomes_dict (quotes b)"]
    by (cases "usable names b") simp_all
  then have "best_after names bms ?best1 n \<noteq> None" by (rule Cons.IH)
  then show ?case unfolding best_after_Cons .
qed

lemma best_after_defines:
  assumes "b \<in> set bms" "usable names b" "n \<in> set names" "make_outcomes_dict (quotes b) n \<noteq> None"
  shows "best_after names bms best n \<noteq> None"
  using assms(1)
proof (induction bms arbitrary: best)
  case Nil
  then show ?case by simp
next
  case (Cons c bms)
  show ?case
  proof (cases "c = b")
    case True
    have "raise_best names (make_outcomes_dict (quotes b)) best n \<noteq> None"
      using assms(3,4) by (rule raise_best_defines)
    then show ?thesis unfolding best_after_Cons using True assms(2) by (simp add: best_after_defined)
  next
    case False
    with Cons.prems have "b \<in> set bms" by simp
    then show ?thesis unfolding best_after_Cons by (rule Cons.IH)
  qed
qed

lemma best_after_value:
  "best_after names bms best n = Some p \<Longrightarrow>
     best n = Some p \<or> (n \<in> set names \<and> (\<exists>b\<in>set bms. usable names b \<and> make_outcomes_dict (quotes b) n = Some p))"
proof (induction bms arbitrary: best)
  case Nil
  then show ?case by (simp add: best_after_def)
next
  case (Cons b bms)
  from Cons.prems have "best_after names bms
       (if usable names b then raise_best names (make_outcomes_dict (quotes b)) best else best) n = Some p"
    by (simp only: best_after_Cons)
  from Cons.IH [OF this] show ?case
    by (auto split: if_splits dest: raise_best_value)
qed

lemma positive_best:
  assumes "positive_prices bms" "set names = outcome_universe bms" "n \<in> set names"
  shows "\<exists>p. best_after names bms Map.empty n = Some p \<and> 0 < p"
proof -
  from assms(2,3) obtain b oc where b: "b \<in> set bms" and oc: "oc \<in> set (quotes b)" "name oc = n"
    by (auto simp: outcome_universe_def)
  from assms(1) b have pos: "\<forall>oc\<in>set (quotes b). 0 < price oc" by (simp add: positive_prices_def)
  from oc have "n \<in> dom (make_outcomes_dict (quotes b))" by (auto simp: outcomes_dict_dom)
  then obtain q where q: "make_outcomes_dict (quotes b) n = Some q" by auto
  have "usable names b" by (rule positive_usable [OF pos assms(3) q])
  from best_after_defines [OF b this assms(3), of Map.empty] q
  obtain p where p: "best_after names bms Map.empty n = Some p" by auto
  from best_after_value [OF p] obtain c where "c \<in> set bms" "make_outcomes_dict (quotes c) n = Some p"
    by auto
  with assms(1) have "0 < p" by (auto simp: positive_prices_def dest: outcomes_dict_value)
  with p show ?thesis by simp
qed

lemma best_after_dom: "dom (best_after names bms Map.empty) \<subseteq> set names"
  using best_after_value [of names bms Map.empty] by auto

text \<open>
  Claim C10. When every quoted price is strictly positive and the estimation reaches the
  selection, \<^verbatim>\<open>best_odds_per_outcome\<close> has an entry, a positive price, for every outcome name
  (and for nothing else), so the \<^verbatim>\<open>continue\<close> of line 145 is never taken: each round of
  the selection compares the expected return of its outcome.
\<close>

theorem best_odds_cover:
  assumes "list_of_set list_of" "estimation list_of g = Inr (names, fair, best)"
    and "\<forall>bms. bookmakers g = Some bms \<longrightarrow> positive_prices bms"
  shows "\<exists>bms. bookmakers g = Some bms \<and> set names = outcome_universe bms
     \<and> dom best = outcome_universe bms
     \<and> (\<forall>n\<in>set names. \<exists>p. best n = Some p \<and> 0 < p)"
proof -
  from assms(1,2) obtain bms where
    bms: "bookmakers g = Some bms" and u: "set names = outcome_universe bms"
    and b: "best = best_after names bms Map.empty"
    by (rule estimation_success)
  from assms(3) bms have pos: "positive_prices bms" by simp
  have all: "\<forall>n\<in>set names. \<exists>p. best n = Some p \<and> 0 < p"
    unfolding b using positive_best [OF pos u] by blast
  then have "set names \<subseteq> dom best" by auto
  moreover have "dom best \<subseteq> set names" unfolding b by (rule best_after_dom)
  ultimately have "dom best = outcome_universe bms" using u by auto
  with bms u all show ?thesis by blast
qed

lemma scenario_B_positive: "\<forall>bms. bookmakers scenario_B = Some bms \<longrightarrow> positive_prices bms"
  by (simp add: scenario_B_def positive_prices_def quotes_def)

theorem best_odds_cover_witness:
  "list_of_set remdups
   \<and> positive_prices (the (bookmakers scenario_B))
   \<and> (\<exists>names fair best. estimation remdups scenario_B = Inr (names, fair, best)
        \<and> dom best = {''A'', ''B''} \<and> best ''A'' = Some 3 \<and> best ''B'' = Some (13 / 5))"
proof -
  from scenario_B_estimation obtain fair best where
    est: "estimation remdups scenario_B = Inr ([''A'', ''B''], fair, best)"
    and v: "best ''A'' = Some 3" "best ''B'' = Some (13 / 5)"
    by blast
  from best_odds_cover [OF list_of_set_remdups est scenario_B_positive] obtain bms where
    "set [''A'', ''B''] = outcome_universe bms" "dom best = outcome_universe bms"
    by blast
  then have "dom best = {''A'', ''B''}" by simp
  moreover have "positive_prices (the (bookmakers scenario_B))"
    using scenario_B_positive by (simp add: scenario_B_def)
  ultimately show ?thesis using list_of_set_remdups est v by blast
qed

subsection \<open>The selected outcome\<close>




subsection \<open>The candidates of the consensus\<close>

lemma omitting_phase1_Inr: "\<exists>best data. omitting_phase1 = Inr (best, data)"
  by (simp add: omitting_phase1_def omitting_def eval_defs)

lemma omitting_probs_A:
  "probs_for (fst (projr omitting_phase1)) (snd (projr omitting_phase1)) ''A'' = Inr [1 / 2]"
  by (simp add: omitting_phase1_def omitting_def eval_defs)

lemma omitting_claimed_A:
  "claimed_probs_for (fst (projr omitting_phase1)) (snd (projr omitting_phase1)) ''A'' = Inr [1 / 2, 0]"
  by (simp add: omitting_phase1_def omitting_def eval_defs claimed_probs_for_def
        claimed_candidates_def claimed_fallback_def excluded_def dv_def)

lemma omitting_probs_C:
  "probs_for (fst (projr omitting_phase1)) (snd (projr omitting_phase1)) ''C'' = Inr [1 / 3]"
  by (simp add: omitting_phase1_def omitting_def eval_defs)

lemma omitting_claimed_C:
  "claimed_probs_for (fst (projr omitting_phase1)) (snd (projr omitting_phase1)) ''C'' = Inr [0, 0]"
  by (simp add: omitting_phase1_def omitting_def eval_defs claimed_probs_for_def
        claimed_candidates_def claimed_fallback_def excluded_def dv_def)

lemma omitting_positive_C:
  "positive_candidates (fst (projr omitting_phase1)) (snd (projr omitting_phase1)) ''C'' = []"
  "positive_all (snd (projr omitting_phase1)) ''C'' = [1 / 3]"
  by (simp_all add: omitting_phase1_def omitting_def eval_defs positive_candidates_def
        positive_all_def excluded_def dv_def)

text \<open>
  The list of claim C1 is not the list of the code. In the match \<open>omitting\<close> bookmaker Z does not
  quote A, so its de-vigged probability for A is 0: the code leaves it out (line 110), the claim
  collects it. For C, the code finds no candidate (X and Y have probability 0, Z is excluded) and
  falls back to Z's \<open>1/3\<close>; the list of the claim is \<open>[0, 0]\<close>, not empty, so the claim has no
  fallback there.
\<close>

theorem claimed_candidates_differ:
  "probs_for (fst (projr omitting_phase1)) (snd (projr omitting_phase1)) ''A'' = Inr [1 / 2]
   \<and> claimed_probs_for (fst (projr omitting_phase1)) (snd (projr omitting_phase1)) ''A'' = Inr [1 / 2, 0]
   \<and> probs_for (fst (projr omitting_phase1)) (snd (projr omitting_phase1)) ''C'' = Inr [1 / 3]
   \<and> claimed_probs_for (fst (projr omitting_phase1)) (snd (projr omitting_phase1)) ''C'' = Inr [0, 0]
   \<and> probs_for (fst (projr omitting_phase1)) (snd (projr omitting_phase1)) ''A''
       \<noteq> claimed_probs_for (fst (projr omitting_phase1)) (snd (projr omitting_phase1)) ''A''"
  by (simp add: omitting_probs_A omitting_claimed_A omitting_probs_C omitting_claimed_C)

lemma positive_candidates_filter:
  "positive_candidates best data nm = filter (\<lambda>v. 0 < v) (claimed_candidates best data nm)"
  by (simp add: positive_candidates_def claimed_candidates_def filter_map comp_def conj_commute)

lemma positive_all_filter:
  "positive_all data nm = filter (\<lambda>v. 0 < v) (map (\<lambda>bd. dv bd nm) data)"
  by (simp add: positive_all_def filter_map comp_def)

text \<open>
  Claim C1, amended. After the loop over the bookmakers, \<^verbatim>\<open>bookmaker_data\<close> holds the usable
  bookmakers. For every outcome name the candidates are the strictly positive de-vigged
  probabilities of the usable bookmakers that do not quote the outcome at its best price; when
  there is none, the strictly positive de-vigged probabilities of all usable bookmakers; when
  there is none either, \<^verbatim>\<open>naive_edge\<close> leaves at line 116.
\<close>

theorem consensus_candidates:
  assumes "distinct names" "nm \<in> set names"
    and "for_each (bookmaker_step names) bms (Map.empty, []) = Inr (best, data)"
  shows "data = usable_bookmakers names bms
     \<and> positive_candidates best data nm = filter (\<lambda>v. 0 < v) (claimed_candidates best data nm)
     \<and> positive_all data nm = filter (\<lambda>v. 0 < v) (map (\<lambda>bd. dv bd nm) data)
     \<and> probs_for best data nm =
         (if positive_candidates best data nm \<noteq> [] then Inr (positive_candidates best data nm)
          else if positive_all data nm \<noteq> [] then Inr (positive_all data nm)
          else Inl NoConsensus)
     \<and> (data \<noteq> [] \<longrightarrow> positive_all data nm = [] \<longrightarrow> estimate names bms = Inl NoConsensus)"
proof -
  from bookmaker_loop_Inr [OF assms(1,3)] have
    ok: "\<forall>b\<in>set bms. markets b \<noteq> [] \<and> (\<forall>n\<in>set names. make_outcomes_dict (quotes b) n \<noteq> Some 0)" .
  then have r: "readable names bms" by (simp add: readable_def)
  from bookmaker_loop_ok [OF assms(1) ok, of Map.empty "[]"] assms(3)
  have data: "data = usable_bookmakers names bms" and best: "best = best_after names bms Map.empty"
    by (simp_all add: usable_bookmakers_def)
  have vf: "\<forall>bd\<in>set data. vig_free bd nm \<noteq> None"
    unfolding data using usable_bookmakers_vig_free [of names bms] assms(2) by blast
  have sub: "positive_all data nm = [] \<Longrightarrow> positive_candidates best data nm = []"
    by (auto simp: positive_all_def positive_candidates_def filter_empty_conv)
  have p: "probs_for best data nm =
         (if positive_candidates best data nm \<noteq> [] then Inr (positive_candidates best data nm)
          else if positive_all data nm \<noteq> [] then Inr (positive_all data nm)
          else Inl NoConsensus)"
    using sub by (auto simp: probs_for_eq [OF vf] chosen_probs_def)
  from assms(2) have ne: "names \<noteq> []" by auto
  have e: "estimate names bms = Inl NoConsensus" if "data \<noteq> []" "positive_all data nm = []"
    using estimate_readable [OF assms(1) ne r] that assms(2) unfolding data by auto
  from data positive_candidates_filter positive_all_filter p e show ?thesis by blast
qed

theorem consensus_candidates_witness:
  "distinct [''A'', ''B'', ''C''] \<and> ''C'' \<in> set [''A'', ''B'', ''C'']
   \<and> (\<exists>best data.
        for_each (bookmaker_step [''A'', ''B'', ''C'']) (the (bookmakers omitting)) (Map.empty, [])
          = Inr (best, data)
        \<and> data = usable_bookmakers [''A'', ''B'', ''C''] (the (bookmakers omitting))
        \<and> positive_candidates best data ''C'' = []
        \<and> positive_all data ''C'' = [1 / 3]
        \<and> probs_for best data ''C'' = Inr [1 / 3])"
proof -
  have h1: "distinct [''A'', ''B'', ''C'']" and h2: "''C'' \<in> set [''A'', ''B'', ''C'']" by simp_all
  from omitting_phase1_Inr obtain best data where
    h3: "for_each (bookmaker_step [''A'', ''B'', ''C'']) (the (bookmakers omitting)) (Map.empty, [])
          = Inr (best, data)"
    unfolding omitting_phase1_def by blast
  then have pr: "fst (projr omitting_phase1) = best" "snd (projr omitting_phase1) = data"
    by (simp_all add: omitting_phase1_def)
  from consensus_candidates [OF h1 h2 h3] have
    d: "data = usable_bookmakers [''A'', ''B'', ''C''] (the (bookmakers omitting))"
    and p: "probs_for best data ''C'' =
         (if positive_candidates best data ''C'' \<noteq> [] then Inr (positive_candidates best data ''C'')
          else if positive_all data ''C'' \<noteq> [] then Inr (positive_all data ''C'')
          else Inl NoConsensus)"
    by blast+
  from omitting_positive_C have pc: "positive_candidates best data ''C'' = []"
    and pa: "positive_all data ''C'' = [1 / 3]"
    by (simp_all only: pr)
  from p pc pa have v: "probs_for best data ''C'' = Inr [1 / 3]" by simp
  from h1 h2 h3 d pc pa v show ?thesis by blast
qed

lemma min_edge_rnd: "min_edge = rnd (1 / 20)"
  unfolding min_edge_def by code_simp

section \<open>Properties of the floating-point code\<close>

subsection \<open>Comparisons of floats\<close>

lemma flt_irrefl: "\<not> flt a a"
  by (cases a) simp_all

lemma flt_trans: "flt a b \<Longrightarrow> flt b c \<Longrightarrow> flt a c"
  by (cases a; cases b; cases c) simp_all

lemma flt_not_nan: "flt a b \<Longrightarrow> a \<noteq> NaN \<and> b \<noteq> NaN"
  by (cases a; cases b) simp_all

lemma fle_not_nan: "fle a b \<Longrightarrow> a \<noteq> NaN \<and> b \<noteq> NaN"
  by (cases a; cases b) (simp_all add: fle_def)

lemma fle_refl: "a \<noteq> NaN \<Longrightarrow> fle a a"
  by (cases a) (simp_all add: fle_def)

lemma fle_trans: "fle a b \<Longrightarrow> fle b c \<Longrightarrow> fle a c"
  by (cases a; cases b; cases c) (auto simp: fle_def)

lemma fle_flt_trans: "fle a b \<Longrightarrow> flt b c \<Longrightarrow> flt a c"
  by (cases a; cases b; cases c) (auto simp: fle_def)

lemma flt_fle_trans: "flt a b \<Longrightarrow> fle b c \<Longrightarrow> flt a c"
  by (cases a; cases b; cases c) (auto simp: fle_def)

lemma flt_imp_fle: "flt a b \<Longrightarrow> fle a b"
  by (simp add: fle_def)

lemma not_flt_fle: "\<not> flt a b \<Longrightarrow> a \<noteq> NaN \<Longrightarrow> b \<noteq> NaN \<Longrightarrow> fle b a"
  by (cases a; cases b) (auto simp: fle_def)

lemma fle_not_flt: "fle a b \<Longrightarrow> \<not> flt b a"
  by (cases a; cases b) (auto simp: fle_def)

lemma fkey_less: "a \<noteq> NaN \<Longrightarrow> b \<noteq> NaN \<Longrightarrow> fkey a < fkey b \<longleftrightarrow> flt a b"
  by (cases a; cases b) simp_all

lemma fkey_le: "a \<noteq> NaN \<Longrightarrow> b \<noteq> NaN \<Longrightarrow> fkey a \<le> fkey b \<longleftrightarrow> fle a b"
  by (cases a; cases b) (auto simp: fle_def)

lemma fkey_desc_le: "a \<noteq> NaN \<Longrightarrow> b \<noteq> NaN \<Longrightarrow> fkey_desc a \<le> fkey_desc b \<longleftrightarrow> fle b a"
  by (cases a; cases b) (auto simp: fle_def fkey_desc_def)

lemma fkey_desc_eq: "a \<noteq> NaN \<Longrightarrow> b \<noteq> NaN \<Longrightarrow> fkey_desc a = fkey_desc b \<longleftrightarrow> a = b"
  by (cases a; cases b) (auto simp: fkey_desc_def)

lemma min_edge_above_start: "\<not> fle min_edge (Fin (- 1))" "min_edge \<noteq> NaN"
  by (simp_all add: min_edge_def fle_def)

subsection \<open>Fair probabilities and selection in floating point\<close>

lemma fair_loop_f:
  assumes "for_each (fair_step_f cp tot) names m0 = Inr fair"
  shows "\<forall>n. n \<in> set names \<or> m0 n \<noteq> None \<longrightarrow> fair n \<noteq> None"
  using assms
proof (induction names arbitrary: m0)
  case Nil
  then show ?case by simp
next
  case (Cons n names)
  from Cons.prems obtain m1 where step: "fair_step_f cp tot n m0 = Inr m1"
    and rest: "for_each (fair_step_f cp tot) names m1 = Inr fair"
    by (auto simp: and_then_Inr_iff)
  from step obtain v where m1: "m1 = m0(n \<mapsto> v)"
    by (auto simp: fair_step_f_def and_then_Inr_iff)
  from Cons.IH [OF rest] have ih: "\<forall>k. k \<in> set names \<or> m1 k \<noteq> None \<longrightarrow> fair k \<noteq> None" .
  show ?case
  proof (intro allI impI)
    fix k
    assume "k \<in> set (n # names) \<or> m0 k \<noteq> None"
    then have "k \<in> set names \<or> m1 k \<noteq> None" by (auto simp: m1)
    with ih show "fair k \<noteq> None" by blast
  qed
qed

lemma estimation_f_fair_defined:
  assumes "estimation_f py g = Inr (names, fair, best)"
  shows "\<forall>n\<in>set names. fair n \<noteq> None"
proof -
  from assms obtain bms where bms: "bookmakers_f g = Some bms" "bms \<noteq> []"
    by (auto simp: estimation_f_def split: option.splits if_splits)
  with assms have est: "estimate_f py names bms = Inr (fair, best)"
    by (auto simp: estimation_f_def Let_def and_then_Inr_iff split: if_splits)
  then obtain cp tot where "for_each (fair_step_f cp tot) names Map.empty = Inr fair"
    by (auto simp: estimate_f_def Let_def and_then_Inr_iff split: if_splits)
  from fair_loop_f [OF this] show ?thesis by blast
qed

lemma select_step_f_cases:
  assumes "select_step_f fair best n (bp, br, bo) = Inr (bp1, br1, bo1)"
  shows "(best n = None \<and> (bp1, br1, bo1) = (bp, br, bo))
       \<or> (\<exists>p f. best n = Some p \<and> fair n = Some f \<and> \<not> flt br (expected_roi_f f p)
             \<and> (bp1, br1, bo1) = (bp, br, bo))
       \<or> (\<exists>p f. best n = Some p \<and> fair n = Some f \<and> flt br (expected_roi_f f p)
             \<and> (bp1, br1, bo1) = (Some n, expected_roi_f f p, p))"
  using assms by (auto simp: getitem_def split: option.splits if_splits)

lemma select_step_f_facts:
  assumes "select_step_f fair best n (bp, br, bo) = Inr (bp1, br1, bo1)" "br \<noteq> NaN"
  shows "br1 \<noteq> NaN" and "fle br br1"
    and "\<forall>p. best n = Some p \<longrightarrow> (\<exists>f. fair n = Some f \<and> \<not> flt br1 (expected_roi_f f p))"
proof -
  from select_step_f_cases [OF assms(1)] show "br1 \<noteq> NaN"
    using assms(2) by (auto dest: flt_not_nan)
  from select_step_f_cases [OF assms(1)] show "fle br br1"
    using assms(2) by (auto intro: fle_refl flt_imp_fle)
  from select_step_f_cases [OF assms(1)]
  show "\<forall>p. best n = Some p \<longrightarrow> (\<exists>f. fair n = Some f \<and> \<not> flt br1 (expected_roi_f f p))"
    by (auto simp: flt_irrefl)
qed

lemma select_inv_f:
  assumes "for_each (select_step_f fair best) names (bp, br, bo) = Inr (bp', br', bo')" "br \<noteq> NaN"
  shows "br' \<noteq> NaN \<and> fle br br'
    \<and> (\<forall>n\<in>set names. \<forall>p. best n = Some p \<longrightarrow> (\<exists>f. fair n = Some f \<and> \<not> flt br' (expected_roi_f f p)))
    \<and> ((bp', br', bo') = (bp, br, bo) \<or>
        (\<exists>pre w post p f. names = pre @ w # post \<and> bp' = Some w \<and> best w = Some p \<and> fair w = Some f
           \<and> br' = expected_roi_f f p \<and> bo' = p \<and> flt br br'
           \<and> (\<forall>n\<in>set pre. \<forall>p' f'. best n = Some p' \<longrightarrow> fair n = Some f'
                 \<longrightarrow> \<not> fle br' (expected_roi_f f' p'))))"
  using assms
proof (induction names arbitrary: bp br bo)
  case Nil
  then show ?case by (simp add: fle_refl)
next
  case (Cons n names)
  from Cons.prems(1) obtain bp1 br1 bo1 where
    step: "select_step_f fair best n (bp, br, bo) = Inr (bp1, br1, bo1)"
    and rest: "for_each (select_step_f fair best) names (bp1, br1, bo1) = Inr (bp', br', bo')"
    by (auto simp: and_then_Inr_iff)
  from select_step_f_facts [OF step Cons.prems(2)] have
    nn1: "br1 \<noteq> NaN" and mono: "fle br br1"
    and here: "\<forall>p. best n = Some p \<longrightarrow> (\<exists>f. fair n = Some f \<and> \<not> flt br1 (expected_roi_f f p))"
    by blast+
  from Cons.IH [OF rest nn1] have
    nn: "br' \<noteq> NaN" and le: "fle br1 br'"
    and ub: "\<forall>m\<in>set names. \<forall>p. best m = Some p \<longrightarrow> (\<exists>f. fair m = Some f \<and> \<not> flt br' (expected_roi_f f p))"
    and ch: "(bp', br', bo') = (bp1, br1, bo1) \<or>
        (\<exists>pre w post p f. names = pre @ w # post \<and> bp' = Some w \<and> best w = Some p \<and> fair w = Some f
           \<and> br' = expected_roi_f f p \<and> bo' = p \<and> flt br1 br'
           \<and> (\<forall>n\<in>set pre. \<forall>p' f'. best n = Some p' \<longrightarrow> fair n = Some f'
                 \<longrightarrow> \<not> fle br' (expected_roi_f f' p')))"
    by blast+
  have 1: "fle br br'" using mono le by (rule fle_trans)
  have here': "\<forall>p. best n = Some p \<longrightarrow> (\<exists>f. fair n = Some f \<and> \<not> flt br' (expected_roi_f f p))"
  proof (intro allI impI)
    fix p
    assume "best n = Some p"
    with here obtain f where f: "fair n = Some f" "\<not> flt br1 (expected_roi_f f p)" by blast
    have "\<not> flt br' (expected_roi_f f p)"
    proof
      assume "flt br' (expected_roi_f f p)"
      with le have "flt br1 (expected_roi_f f p)" by (rule fle_flt_trans)
      with f(2) show False by simp
    qed
    with f(1) show "\<exists>f. fair n = Some f \<and> \<not> flt br' (expected_roi_f f p)" by blast
  qed
  have 2: "\<forall>m\<in>set (n # names). \<forall>p. best m = Some p \<longrightarrow> (\<exists>f. fair m = Some f \<and> \<not> flt br' (expected_roi_f f p))"
    using here' ub by simp
  have 3: "(bp', br', bo') = (bp, br, bo) \<or>
        (\<exists>pre w post p f. n # names = pre @ w # post \<and> bp' = Some w \<and> best w = Some p \<and> fair w = Some f
           \<and> br' = expected_roi_f f p \<and> bo' = p \<and> flt br br'
           \<and> (\<forall>n\<in>set pre. \<forall>p' f'. best n = Some p' \<longrightarrow> fair n = Some f'
                 \<longrightarrow> \<not> fle br' (expected_roi_f f' p')))"
    using ch
  proof
    assume same: "(bp', br', bo') = (bp1, br1, bo1)"
    from select_step_f_cases [OF step] show ?thesis
    proof (elim disjE exE conjE)
      fix p f
      assume "best n = Some p" "fair n = Some f" "flt br (expected_roi_f f p)"
        "(bp1, br1, bo1) = (Some n, expected_roi_f f p, p)"
      with same have "n # names = [] @ n # names \<and> bp' = Some n \<and> best n = Some p \<and> fair n = Some f
           \<and> br' = expected_roi_f f p \<and> bo' = p \<and> flt br br'
           \<and> (\<forall>n\<in>set []. \<forall>p' f'. best n = Some p' \<longrightarrow> fair n = Some f'
                 \<longrightarrow> \<not> fle br' (expected_roi_f f' p'))"
        by simp
      then show ?thesis by blast
    qed (use same in auto)
  next
    assume "\<exists>pre w post p f. names = pre @ w # post \<and> bp' = Some w \<and> best w = Some p \<and> fair w = Some f
           \<and> br' = expected_roi_f f p \<and> bo' = p \<and> flt br1 br'
           \<and> (\<forall>n\<in>set pre. \<forall>p' f'. best n = Some p' \<longrightarrow> fair n = Some f'
                 \<longrightarrow> \<not> fle br' (expected_roi_f f' p'))"
    then obtain pre w post p f where
      w: "names = pre @ w # post" "bp' = Some w" "best w = Some p" "fair w = Some f"
         "br' = expected_roi_f f p" "bo' = p" "flt br1 br'"
      and pre: "\<forall>n\<in>set pre. \<forall>p' f'. best n = Some p' \<longrightarrow> fair n = Some f'
                 \<longrightarrow> \<not> fle br' (expected_roi_f f' p')"
      by (elim exE conjE)
    have lt: "flt br br'" using mono w(7) by (rule fle_flt_trans)
    have n: "\<forall>p' f'. best n = Some p' \<longrightarrow> fair n = Some f' \<longrightarrow> \<not> fle br' (expected_roi_f f' p')"
    proof (intro allI impI notI)
      fix p' f'
      assume a: "best n = Some p'" "fair n = Some f'" "fle br' (expected_roi_f f' p')"
      from w(7) a(3) have "flt br1 (expected_roi_f f' p')" by (rule flt_fle_trans)
      with here a(1,2) show False by auto
    qed
    have "n # names = (n # pre) @ w # post \<and> bp' = Some w \<and> best w = Some p \<and> fair w = Some f
           \<and> br' = expected_roi_f f p \<and> bo' = p \<and> flt br br'
           \<and> (\<forall>n\<in>set (n # pre). \<forall>p' f'. best n = Some p' \<longrightarrow> fair n = Some f'
                 \<longrightarrow> \<not> fle br' (expected_roi_f f' p'))"
      using w(1-6) lt pre n by simp
    then show ?thesis by blast
  qed
  from nn 1 2 3 show ?case by blast
qed

lemma select_total_f:
  assumes "\<forall>n\<in>set names. fair n \<noteq> None"
  shows "\<exists>st. for_each (select_step_f fair best) names (bp, br, bo) = Inr st"
  using assms
proof (induction names arbitrary: bp br bo)
  case Nil
  show ?case by simp
next
  case (Cons n names)
  then obtain f where f: "fair n = Some f" by auto
  have "\<exists>st. select_step_f fair best n (bp, br, bo) = Inr st"
    by (cases "best n") (simp_all add: getitem_def f)
  then obtain bp1 br1 bo1 where step: "select_step_f fair best n (bp, br, bo) = Inr (bp1, br1, bo1)"
    by (metis prod_cases3)
  from Cons obtain st where rest: "for_each (select_step_f fair best) names (bp1, br1, bo1) = Inr st"
    by fastforce
  have "for_each (select_step_f fair best) (n # names) (bp, br, bo) = Inr st"
    by (simp only: for_each.simps step and_then_simps rest)
  then show ?case by blast
qed

lemma naive_edge_f_after_estimation:
  assumes "estimation_f py g = Inr (names, fair, best)"
  obtains bp br bo where
    "select_loop_f names fair best = Inr (bp, br, bo)"
    "naive_edge_trace_f py g = (if fle min_edge br then Inr (bp, bo, br) else Inl NoQualifyingPick)"
    "naive_edge_f py g = (if fle min_edge br then Some (bp, bo, br) else None)"
proof -
  from select_total_f [OF estimation_f_fair_defined [OF assms]]
  obtain st where "select_loop_f names fair best = Inr st"
    unfolding select_loop_f_def by blast
  then obtain bp br bo where l: "select_loop_f names fair best = Inr (bp, br, bo)"
    by (metis prod_cases3)
  have t: "naive_edge_trace_f py g = (if fle min_edge br then Inr (bp, bo, br) else Inl NoQualifyingPick)"
    by (simp add: naive_edge_trace_f_def assms l threshold_f_def)
  have "naive_edge_f py g = (if fle min_edge br then Some (bp, bo, br) else None)"
    by (simp add: naive_edge_f_def t)
  with l t show ?thesis by (rule that)
qed

subsection \<open>Rounding\<close>

lemma pow2_powi: "pow2 k = 2 powi k"
  by (simp add: pow2_def power_int_def inverse_eq_divide power_one_over)

lemma pow2_pos: "0 < pow2 k"
  by (simp add: pow2_powi)

lemma pow2_strict_mono: "i < j \<Longrightarrow> pow2 i < pow2 j"
  unfolding pow2_powi by (rule power_int_strict_increasing) simp_all

lemma pow2_nat: "0 \<le> k \<Longrightarrow> pow2 k = 2 ^ nat k"
  by (simp add: pow2_def)

lemma pow2_diff: "pow2 (i - j) = pow2 i / pow2 j"
  by (simp add: pow2_powi power_int_diff)

lemma expo_bounds:
  assumes "0 < a"
  shows "pow2 (expo a) \<le> a \<and> a < pow2 (expo a + 1)"
proof -
  obtain n d where q: "quotient_of a = (n, d)" by (cases "quotient_of a")
  then have d: "0 < d" and a: "a = of_int n / of_int d"
    by (simp_all add: quotient_of_denom_pos quotient_of_div)
  from assms a d have n: "0 < n" by (simp add: zero_less_divide_iff)
  let ?bn = "bitlen n" and ?bd = "bitlen d"
  let ?k = "?bn - ?bd"
  from bitlen_bounds [OF n] have bn: "(2::int) ^ nat (?bn - 1) \<le> n" "n < 2 ^ nat ?bn" by simp_all
  from bitlen_bounds [OF d] have bd: "(2::int) ^ nat (?bd - 1) \<le> d" "d < 2 ^ nat ?bd" by simp_all
  have bn1: "1 \<le> ?bn" using n bitlen_eq_zero_iff [of n] bitlen_nonneg [of n] by simp
  have bd1: "1 \<le> ?bd" using d bitlen_eq_zero_iff [of d] bitlen_nonneg [of d] by simp
  have rn: "pow2 (?bn - 1) \<le> of_int n" "of_int n < pow2 ?bn"
  proof -
    from bn(1) have "(of_int ((2::int) ^ nat (?bn - 1)) :: rat) \<le> of_int n" by (simp only: of_int_le_iff)
    then show "pow2 (?bn - 1) \<le> of_int n" using bn1 by (simp add: pow2_nat)
    from bn(2) have "(of_int n :: rat) < of_int ((2::int) ^ nat ?bn)" by (simp only: of_int_less_iff)
    then show "of_int n < pow2 ?bn" using bn1 by (simp add: pow2_nat)
  qed
  have rd: "pow2 (?bd - 1) \<le> of_int d" "of_int d < pow2 ?bd"
  proof -
    from bd(1) have "(of_int ((2::int) ^ nat (?bd - 1)) :: rat) \<le> of_int d" by (simp only: of_int_le_iff)
    then show "pow2 (?bd - 1) \<le> of_int d" using bd1 by (simp add: pow2_nat)
    from bd(2) have "(of_int d :: rat) < of_int ((2::int) ^ nat ?bd)" by (simp only: of_int_less_iff)
    then show "of_int d < pow2 ?bd" using bd1 by (simp add: pow2_nat)
  qed
  have dpos: "(0::rat) < of_int d" and npos: "(0::rat) < of_int n" using d n by simp_all
  have up: "a < pow2 (?k + 1)"
  proof -
    have "a < pow2 ?bn / of_int d" unfolding a using rn(2) dpos by (simp add: divide_strict_right_mono)
    also have "\<dots> \<le> pow2 ?bn / pow2 (?bd - 1)"
      using rd(1) pow2_pos [of "?bd - 1"] pow2_pos [of ?bn] by (simp add: frac_le)
    also have "\<dots> = pow2 (?bn - (?bd - 1))" by (simp only: pow2_diff)
    finally show ?thesis by (simp add: algebra_simps)
  qed
  have lo: "pow2 (?k - 1) < a"
  proof -
    have "pow2 (?k - 1) = pow2 ((?bn - 1) - ?bd)" by (simp add: algebra_simps)
    also have "\<dots> = pow2 (?bn - 1) / pow2 ?bd" by (simp only: pow2_diff)
    also have "\<dots> < pow2 (?bn - 1) / of_int d"
      using rd(2) dpos pow2_pos [of "?bn - 1"] by (simp add: frac_less2)
    also have "\<dots> \<le> a" unfolding a using rn(1) dpos by (simp add: divide_right_mono)
    finally show ?thesis .
  qed
  show ?thesis
  proof (cases "pow2 ?k \<le> a")
    case True
    then have "expo a = ?k" by (simp add: expo_def q Let_def)
    with True up show ?thesis by simp
  next
    case False
    then have "expo a = ?k - 1" by (simp add: expo_def q Let_def)
    with False lo show ?thesis by simp
  qed
qed

lemma expo_eqI:
  assumes "pow2 e \<le> a" "a < pow2 (e + 1)"
  shows "expo a = e"
proof -
  have pos: "0 < a" using assms(1) pow2_pos [of e] by simp
  from expo_bounds [OF pos] have b: "pow2 (expo a) \<le> a" "a < pow2 (expo a + 1)" by simp_all
  show ?thesis
  proof (rule ccontr)
    assume ne: "expo a \<noteq> e"
    then consider "expo a < e" | "e < expo a" by linarith
    then show False
    proof cases
      case 1
      then have "expo a + 1 \<le> e" by simp
      then have "pow2 (expo a + 1) \<le> pow2 e"
        using pow2_strict_mono [of "expo a + 1" e] by (cases "expo a + 1 = e") auto
      with b(2) assms(1) show False by simp
    next
      case 2
      then have "e + 1 \<le> expo a" by simp
      then have "pow2 (e + 1) \<le> pow2 (expo a)"
        using pow2_strict_mono [of "e + 1" "expo a"] by (cases "e + 1 = expo a") auto
      with b(1) assms(2) show False by simp
    qed
  qed
qed

lemma round_half_even_eqI:
  assumes "\<bar>y - of_int m\<bar> < 1 / 2"
  shows "round_half_even y = m"
proof -
  from assms have lo: "of_int m - 1 / 2 < y" and hi: "y < of_int m + 1 / 2" by linarith+
  show ?thesis
  proof (cases "of_int m \<le> y")
    case True
    with hi have "\<lfloor>y\<rfloor> = m" by (intro floor_unique) simp_all
    with hi show ?thesis by (simp add: round_half_even_def Let_def)
  next
    case False
    with lo have "\<lfloor>y\<rfloor> = m - 1" by (intro floor_unique) simp_all
    with lo False show ?thesis by (simp add: round_half_even_def Let_def)
  qed
qed

lemma round_half_even_tie:
  assumes "y = of_int m + 1 / 2 \<or> y = of_int m - 1 / 2" "even m"
  shows "round_half_even y = m"
  using assms(1)
proof
  assume y: "y = of_int m + 1 / 2"
  then have "\<lfloor>y\<rfloor> = m" by (intro floor_unique) simp_all
  with y assms(2) show ?thesis by (simp add: round_half_even_def Let_def)
next
  assume y: "y = of_int m - 1 / 2"
  then have "\<lfloor>y\<rfloor> = m - 1" by (intro floor_unique) simp_all
  with y assms(2) show ?thesis by (simp add: round_half_even_def Let_def)
qed

text \<open>Rounding with a certificate: the exponent \<open>e\<close> and the integer significand \<open>m\<close>.\<close>

lemma rnd_zero: "rnd 0 = Fin 0"
  by (simp add: rnd_def)

lemma rnd_cert:
  assumes "pow2 e \<le> \<bar>x\<bar>" "\<bar>x\<bar> < pow2 (e + 1)"
    and "\<bar>\<bar>x\<bar> / pow2 (max e (- 1022) - 52) - of_int m\<bar> < 1 / 2
       \<or> even m \<and> (\<bar>x\<bar> / pow2 (max e (- 1022) - 52) = of_int m + 1 / 2
                   \<or> \<bar>x\<bar> / pow2 (max e (- 1022) - 52) = of_int m - 1 / 2)"
    and "y = (if 0 < x then of_int m * pow2 (max e (- 1022) - 52)
              else - (of_int m * pow2 (max e (- 1022) - 52)))"
    and "of_int m * pow2 (max e (- 1022) - 52) < pow2 1024"
  shows "rnd x = Fin y"
proof -
  have nz: "x \<noteq> 0" using assms(1) pow2_pos [of e] by auto
  have e: "expo \<bar>x\<bar> = e" using assms(1,2) by (rule expo_eqI)
  have m: "round_half_even (\<bar>x\<bar> / pow2 (max e (- 1022) - 52)) = m"
    using assms(3) by (auto intro: round_half_even_eqI round_half_even_tie)
  show ?thesis
  proof (cases "0 < x")
    case True
    then have ax: "\<bar>x\<bar> = x" by simp
    from e m have "expo x = e" "round_half_even (x / pow2 (max e (- 1022) - 52)) = m"
      unfolding ax by simp_all
    with nz True assms(4,5) show ?thesis unfolding ax by (simp add: rnd_def Let_def)
  next
    case False
    with nz have neg: "x < 0" by simp
    then have ax: "\<bar>x\<bar> = - x" by simp
    from e m have "expo (- x) = e" "round_half_even (- x / pow2 (max e (- 1022) - 52)) = m"
      unfolding ax by simp_all
    with nz False neg assms(4,5) show ?thesis by (simp add: rnd_def Let_def ax)
  qed
qed

end
